theory Spec2Isabelle
  imports Main "HOL-Library.Word" "HOL-Library.Sublist" "HOL-Library.Multiset"
begin

section \<open>Jobs\<close>

text \<open>
  \<^verbatim>\<open>std::size_t\<close>, taken 64 bits wide: increments and decrements of the accounting
  counters wrap around.
\<close>

type_synonym size_t = "64 word"

text \<open>
  A callable runs against the rest of the program, the world \<open>'w\<close>: it leaves a new
  world and either returns a value or throws.
\<close>

datatype exn = Exception nat

type_synonym ('r, 'w) comp = "'w \<Rightarrow> (exn + 'r) \<times> 'w"

text \<open>
  A stored job is the \<^verbatim>\<open>std::future<void>\<close> of
  \<^verbatim>\<open>std::async(std::launch::deferred, job, ...)\<close>: nothing runs until \<^verbatim>\<open>get()\<close>, which
  runs the wrapped lambda on the calling thread and rethrows what it throws.
  \<open>func\<close> stands for the bound call \<^verbatim>\<open>std::invoke(func, ts...)\<close>.
\<close>

type_synonym 'w job = "(unit, 'w) comp"

definition Add_job :: "(unit, 'w) comp \<Rightarrow> 'w job" where
  "Add_job func = func"

text \<open>
  \<^verbatim>\<open>std::invoke(callback, std::invoke(xs...))\<close>: the argument is evaluated first; when it
  throws, the callback is not called. The \<^verbatim>\<open>void\<close> branch (call, then
  \<^verbatim>\<open>callback()\<close>) is the instance \<open>'r = unit\<close>.
\<close>

definition AddWithCallback_job :: "('r \<Rightarrow> (unit, 'w) comp) \<Rightarrow> ('r, 'w) comp \<Rightarrow> 'w job" where
  "AddWithCallback_job callback func =
     (\<lambda>w. case func w of
            (Inl e, w') \<Rightarrow> (Inl e, w')
          | (Inr r, w') \<Rightarrow> callback r w')"

definition future_get :: "'w job \<Rightarrow> 'w \<Rightarrow> (exn + unit) \<times> 'w" where
  "future_get job w = job w"

section \<open>The keyed queue: data guarded by the mutex\<close>

record ('k, 'w) AsyncJobQueue =
  in_progress_job_count_map :: "'k \<rightharpoonup> size_t"
  pending_job_count_map :: "'k \<rightharpoonup> size_t"
  job_list :: "('k \<times> 'w job) list"

text \<open>\<^verbatim>\<open>m[key]\<close> of \<^verbatim>\<open>std::map\<close>: an absent key is inserted with the value 0.\<close>

definition subscript :: "('k \<rightharpoonup> size_t) \<Rightarrow> 'k \<Rightarrow> size_t" where
  "subscript m key = (case m key of None \<Rightarrow> 0 | Some c \<Rightarrow> c)"

definition contains :: "('k \<rightharpoonup> size_t) \<Rightarrow> 'k \<Rightarrow> bool" where
  "contains m key = (case m key of None \<Rightarrow> False | Some c \<Rightarrow> True)"

definition erase :: "('k \<rightharpoonup> size_t) \<Rightarrow> 'k \<Rightarrow> ('k \<rightharpoonup> size_t)" where
  "erase m key = m(key := None)"

text \<open>
  \<^verbatim>\<open>job_list.size()\<close> is a \<^verbatim>\<open>size_t\<close>: a list never holds \<open>2 ^ 64\<close> nodes, and
  \<^verbatim>\<open>emplace_back\<close> throws before it changes a list that cannot grow.
\<close>

definition list_max_size :: nat where
  "list_max_size = 2 ^ 64 - 1"

datatype error = bad_alloc

text \<open>The locked part of \<^verbatim>\<open>Add\<close> and of both branches of \<^verbatim>\<open>AddWithCallback\<close>.\<close>

definition emplace_back :: "'k \<Rightarrow> 'w job \<Rightarrow> ('k, 'w) AsyncJobQueue \<Rightarrow> error + ('k, 'w) AsyncJobQueue" where
  "emplace_back key job q =
     (if length (job_list q) < list_max_size
      then Inr (q\<lparr>pending_job_count_map :=
                    (pending_job_count_map q)(key \<mapsto> subscript (pending_job_count_map q) key + 1),
                  job_list := job_list q @ [(key, job)]\<rparr>)
      else Inl bad_alloc)"

definition Add :: "'k \<Rightarrow> (unit, 'w) comp \<Rightarrow> ('k, 'w) AsyncJobQueue \<Rightarrow> error + ('k, 'w) AsyncJobQueue" where
  "Add key func q = emplace_back key (Add_job func) q"

definition AddWithCallback ::
  "'k \<Rightarrow> ('r \<Rightarrow> (unit, 'w) comp) \<Rightarrow> ('r, 'w) comp \<Rightarrow> ('k, 'w) AsyncJobQueue \<Rightarrow> error + ('k, 'w) AsyncJobQueue" where
  "AddWithCallback key callback func q = emplace_back key (AddWithCallback_job callback func) q"

text \<open>The fold expressions over the pack \<open>ts\<close>; over an empty pack \<^verbatim>\<open>&& ...\<close> is true.\<close>

definition Ready :: "'k list \<Rightarrow> ('k, 'w) AsyncJobQueue \<Rightarrow> bool" where
  "Ready ts q =
     (job_list q = []
      \<and> list_all (\<lambda>t. \<not> contains (pending_job_count_map q) t) ts
      \<and> list_all (\<lambda>t. \<not> contains (in_progress_job_count_map q) t) ts)"

text \<open>The predicate \<^verbatim>\<open>Join\<close> waits for.\<close>

definition Join_predicate :: "'k list \<Rightarrow> ('k, 'w) AsyncJobQueue \<Rightarrow> bool" where
  "Join_predicate ts q =
     (if ts = []
      then job_list q = [] \<and> pending_job_count_map q = Map.empty
           \<and> in_progress_job_count_map q = Map.empty
      else Ready ts q)"

definition Cancel :: "'k list \<Rightarrow> ('k, 'w) AsyncJobQueue \<Rightarrow> ('k, 'w) AsyncJobQueue" where
  "Cancel ts q =
     (if ts = []
      then q\<lparr>pending_job_count_map := Map.empty, job_list := []\<rparr>
      else q\<lparr>pending_job_count_map := fold (\<lambda>t m. erase m t) ts (pending_job_count_map q),
             job_list := filter (\<lambda>t. \<not> list_ex (\<lambda>k. fst t = k) ts) (job_list q)\<rparr>)"

text \<open>
  The locked part of the worker's \<^verbatim>\<open>else\<close> branch before \<^verbatim>\<open>lk.unlock()\<close>: the head
  entry leaves the list, its key moves from pending to in progress.
\<close>

definition dequeue :: "('k, 'w) AsyncJobQueue \<Rightarrow> ('k \<times> 'w job \<times> ('k, 'w) AsyncJobQueue) option" where
  "dequeue q =
     (case job_list q of
        [] \<Rightarrow> None
      | (key, job) # rest \<Rightarrow>
          (let pending_job_count = subscript (pending_job_count_map q) key - 1;
               pending = (if pending_job_count = 0
                          then erase (pending_job_count_map q) key
                          else (pending_job_count_map q)(key \<mapsto> pending_job_count));
               in_progress_job_count = subscript (in_progress_job_count_map q) key + 1
           in Some (key, job,
                q\<lparr>in_progress_job_count_map :=
                     (in_progress_job_count_map q)(key \<mapsto> in_progress_job_count),
                   pending_job_count_map := pending,
                   job_list := rest\<rparr>)))"

text \<open>
  The locked part after \<^verbatim>\<open>job.get()\<close>. \<^verbatim>\<open>in_progress_job_count\<close> is a reference to
  the node made at dequeue; with the node gone the reference dangles, which is \<open>None\<close>
  here. The flag says whether \<^verbatim>\<open>join_condition_variable.notify_all()\<close> is called.
\<close>

definition complete :: "'k \<Rightarrow> ('k, 'w) AsyncJobQueue \<Rightarrow> (('k, 'w) AsyncJobQueue \<times> bool) option" where
  "complete key q =
     (case in_progress_job_count_map q key of
        None \<Rightarrow> None
      | Some c \<Rightarrow>
          (let in_progress_job_count = c - 1
           in if in_progress_job_count = 0
              then Some (q\<lparr>in_progress_job_count_map := erase (in_progress_job_count_map q) key\<rparr>,
                         \<not> contains (pending_job_count_map q) key)
              else Some (q\<lparr>in_progress_job_count_map :=
                             (in_progress_job_count_map q)(key \<mapsto> in_progress_job_count)\<rparr>,
                         False)))"

section \<open>The keyed queue: threads\<close>

text \<open>
  The mutex makes every locked region one atomic step. A worker of
  \<^verbatim>\<open>JobDispatcherThread\<close> is at one of these places: at the head of the loop, blocked
  in \<^verbatim>\<open>job_condition_variable.wait\<close>, woken there and waiting for the mutex, between
  \<^verbatim>\<open>lk.unlock()\<close> and \<^verbatim>\<open>job.get()\<close> with the entry it took, between
  \<^verbatim>\<open>job.get()\<close> and \<^verbatim>\<open>lk.lock()\<close>, or past \<^verbatim>\<open>break\<close>.
\<close>

datatype ('k, 'w) pc = AtTop | Waiting | Woken | Running 'k "'w job" | Finished 'k | Exited

text \<open>A caller inside \<^verbatim>\<open>Join(ts...)\<close>: blocked in \<^verbatim>\<open>join_condition_variable.wait\<close>,
  notified and waiting for the mutex, or returned.\<close>

datatype 'k joiner = Blocked "'k list" | Notified "'k list" | Returned

text \<open>
  \<open>thread_pool\<close> pairs each worker's place with the stop state of its
  \<^verbatim>\<open>std::jthread\<close>. \<open>terminated\<close> is set once \<^verbatim>\<open>std::terminate\<close> has been called.
  \<open>submitted\<close>, \<open>dispatched\<close> and \<open>started\<close> are history variables that no step reads:
  the entries in the order they were added, taken from the list, and run by
  \<^verbatim>\<open>job.get()\<close>.
\<close>

record ('k, 'w) system =
  obj :: "('k, 'w) AsyncJobQueue"
  thread_pool :: "(('k, 'w) pc \<times> bool) list"
  joiners :: "'k joiner list"
  world :: 'w
  terminated :: bool
  submitted :: "('k \<times> 'w job) list"
  dispatched :: "('k \<times> 'w job) list"
  started :: "('k \<times> 'w job) list"

text \<open>The constructor: \<open>number_of_threads\<close> workers, each at the head of its loop.\<close>

definition AsyncJobQueue_ctor :: "size_t \<Rightarrow> 'w \<Rightarrow> ('k, 'w) system" where
  "AsyncJobQueue_ctor number_of_threads w =
     \<lparr>obj = \<lparr>in_progress_job_count_map = Map.empty, pending_job_count_map = Map.empty,
             job_list = []\<rparr>,
      thread_pool = replicate (unat number_of_threads) (AtTop, False),
      joiners = [], world = w, terminated = False,
      submitted = [], dispatched = [], started = []\<rparr>"

text \<open>
  The default argument \<^verbatim>\<open>std::thread::hardware_concurrency() * 2\<close>: an
  \<^verbatim>\<open>unsigned int\<close> product, converted to \<^verbatim>\<open>size_t\<close>.
\<close>

definition default_number_of_threads :: "32 word \<Rightarrow> size_t" where
  "default_number_of_threads hardware_concurrency = ucast (hardware_concurrency * 2)"

definition notify_all_join :: "'k joiner list \<Rightarrow> 'k joiner list" where
  "notify_all_join js = map (\<lambda>j. case j of Blocked ts \<Rightarrow> Notified ts | _ \<Rightarrow> j) js"

definition set_pc :: "nat \<Rightarrow> ('k, 'w) pc \<Rightarrow> ('k, 'w) system \<Rightarrow> ('k, 'w) system" where
  "set_pc i p s = s\<lparr>thread_pool := (thread_pool s)[i := (p, snd (thread_pool s ! i))]\<rparr>"

text \<open>
  One step of worker \<open>i\<close>. The predicate of \<^verbatim>\<open>job_condition_variable.wait\<close> is
  \<^verbatim>\<open>stop_requested() || !empty(job_list)\<close>; it is evaluated with the mutex held, first
  right after the emptiness test of the \<^verbatim>\<open>if\<close>, then after every wake-up. The run of
  a job by \<^verbatim>\<open>job.get()\<close> is one step on the world. A job that throws leaves
  \<^verbatim>\<open>job.get()\<close> and the thread function by the exception, which calls
  \<^verbatim>\<open>std::terminate\<close>.
\<close>

definition JobDispatcherThread :: "nat \<Rightarrow> ('k, 'w) system \<Rightarrow> ('k, 'w) system option" where
  "JobDispatcherThread i s =
     (case thread_pool s ! i of
        (AtTop, stop) \<Rightarrow>
          (case dequeue (obj s) of
             None \<Rightarrow>
               Some (set_pc i (if stop then Exited else Waiting)
                       (s\<lparr>joiners := notify_all_join (joiners s)\<rparr>))
           | Some (key, job, q) \<Rightarrow>
               Some (set_pc i (Running key job)
                       (s\<lparr>obj := q, dispatched := dispatched s @ [(key, job)]\<rparr>)))
      | (Waiting, stop) \<Rightarrow> None
      | (Woken, stop) \<Rightarrow>
          (if stop \<or> job_list (obj s) \<noteq> []
           then Some (set_pc i (if stop \<and> job_list (obj s) = [] then Exited else AtTop) s)
           else Some (set_pc i Waiting s))
      | (Running key job, stop) \<Rightarrow>
          (case future_get job (world s) of
             (Inl e, w) \<Rightarrow>
               Some (s\<lparr>world := w, terminated := True, started := started s @ [(key, job)]\<rparr>)
           | (Inr u, w) \<Rightarrow>
               Some (set_pc i (Finished key)
                       (s\<lparr>world := w, started := started s @ [(key, job)]\<rparr>)))
      | (Finished key, stop) \<Rightarrow>
          (case complete key (obj s) of
             None \<Rightarrow> None
           | Some (q, notify) \<Rightarrow>
               Some (set_pc i AtTop
                       (s\<lparr>obj := q,
                          joiners := (if notify then notify_all_join (joiners s) else joiners s)\<rparr>)))
      | (Exited, stop) \<Rightarrow> None)"

text \<open>
  What the threads of the process can do. \<open>Wakeup i\<close> is a
  \<^verbatim>\<open>notify_one\<close> or \<^verbatim>\<open>notify_all\<close> on \<^verbatim>\<open>job_condition_variable\<close> reaching worker
  \<open>i\<close>, or a spurious wake-up. \<open>CallDestructor\<close> is the body of the destructor:
  \<^verbatim>\<open>request_stop()\<close> on every thread, then \<^verbatim>\<open>notify_all\<close>. \<open>JoinRecheck j\<close> is caller
  \<open>j\<close> re-evaluating its predicate after a notification.
\<close>

datatype ('k, 'w, 'r) event =
    CallAdd 'k "(unit, 'w) comp"
  | CallAddWithCallback 'k "'r \<Rightarrow> (unit, 'w) comp" "('r, 'w) comp"
  | CallCancel "'k list"
  | CallJoin "'k list"
  | JoinRecheck nat
  | CallDestructor
  | Wakeup nat
  | WorkerStep nat

fun act :: "('k, 'w, 'r) event \<Rightarrow> ('k, 'w) system \<Rightarrow> ('k, 'w) system option" where
  "act (CallAdd key func) s =
     (case Add key func (obj s) of
        Inl e \<Rightarrow> Some s
      | Inr q \<Rightarrow> Some (s\<lparr>obj := q, submitted := submitted s @ [(key, Add_job func)]\<rparr>))"
| "act (CallAddWithCallback key callback func) s =
     (case AddWithCallback key callback func (obj s) of
        Inl e \<Rightarrow> Some s
      | Inr q \<Rightarrow>
          Some (s\<lparr>obj := q,
                  submitted := submitted s @ [(key, AddWithCallback_job callback func)]\<rparr>))"
| "act (CallCancel ts) s = Some (s\<lparr>obj := Cancel ts (obj s)\<rparr>)"
| "act (CallJoin ts) s =
     Some (s\<lparr>joiners := joiners s @ [if Join_predicate ts (obj s) then Returned else Blocked ts]\<rparr>)"
| "act (JoinRecheck j) s =
     (if j < length (joiners s)
      then (case joiners s ! j of
              Notified ts \<Rightarrow>
                Some (s\<lparr>joiners := (joiners s)
                          [j := (if Join_predicate ts (obj s) then Returned else Blocked ts)]\<rparr>)
            | Blocked ts \<Rightarrow> None
            | Returned \<Rightarrow> None)
      else None)"
| "act CallDestructor s =
     Some (s\<lparr>thread_pool :=
               map (\<lambda>(p, stop). (case p of Waiting \<Rightarrow> Woken | _ \<Rightarrow> p, True)) (thread_pool s)\<rparr>)"
| "act (Wakeup i) s =
     (if i < length (thread_pool s)
      then (case thread_pool s ! i of
              (Waiting, stop) \<Rightarrow> Some (set_pc i Woken s)
            | _ \<Rightarrow> None)
      else None)"
| "act (WorkerStep i) s =
     (if i < length (thread_pool s) then JobDispatcherThread i s else None)"

text \<open>After \<^verbatim>\<open>std::terminate\<close> no thread does anything.\<close>

definition fire :: "('k, 'w, 'r) event \<Rightarrow> ('k, 'w) system \<Rightarrow> ('k, 'w) system option" where
  "fire ev s = (if terminated s then None else act ev s)"

fun run :: "('k, 'w, 'r) event list \<Rightarrow> ('k, 'w) system \<Rightarrow> ('k, 'w) system option" where
  "run [] s = Some s"
| "run (ev # evs) s = (case fire ev s of None \<Rightarrow> None | Some s' \<Rightarrow> run evs s')"

section \<open>The specialization for \<open>NoKey\<close>\<close>

text \<open>
  \<^verbatim>\<open>AsyncJobQueue<NoKey>\<close> keeps a \<^verbatim>\<open>std::queue\<close> of jobs and one counter,
  \<^verbatim>\<open>number_of_busy_threads\<close>, which the constructor sets to the size of the pool. A
  worker subtracts one when it finds the queue empty and adds one when it leaves the wait
  without exiting. \<^verbatim>\<open>Join\<close> waits for the counter to be 0.
\<close>

record 'w AsyncJobQueue_NoKey =
  job_queue :: "'w job list"
  number_of_busy_threads :: size_t

datatype 'w pc_NoKey = AtTop_NoKey | Waiting_NoKey | Woken_NoKey | Running_NoKey "'w job" | Exited_NoKey

datatype joiner_NoKey = Blocked_NoKey | Notified_NoKey | Returned_NoKey

record 'w system_NoKey =
  obj_NoKey :: "'w AsyncJobQueue_NoKey"
  thread_pool_NoKey :: "('w pc_NoKey \<times> bool) list"
  joiners_NoKey :: "joiner_NoKey list"
  world_NoKey :: 'w
  terminated_NoKey :: bool

definition AsyncJobQueue_NoKey_ctor :: "size_t \<Rightarrow> 'w \<Rightarrow> 'w system_NoKey" where
  "AsyncJobQueue_NoKey_ctor number_of_threads w =
     \<lparr>obj_NoKey = \<lparr>job_queue = [], number_of_busy_threads = number_of_threads\<rparr>,
      thread_pool_NoKey = replicate (unat number_of_threads) (AtTop_NoKey, False),
      joiners_NoKey = [], world_NoKey = w, terminated_NoKey = False\<rparr>"

definition push :: "'w job \<Rightarrow> 'w AsyncJobQueue_NoKey \<Rightarrow> error + 'w AsyncJobQueue_NoKey" where
  "push job q =
     (if length (job_queue q) < list_max_size
      then Inr (q\<lparr>job_queue := job_queue q @ [job]\<rparr>)
      else Inl bad_alloc)"

definition Join_NoKey_predicate :: "'w AsyncJobQueue_NoKey \<Rightarrow> bool" where
  "Join_NoKey_predicate q = (number_of_busy_threads q = 0)"

definition Cancel_NoKey :: "'w AsyncJobQueue_NoKey \<Rightarrow> 'w AsyncJobQueue_NoKey" where
  "Cancel_NoKey q = q\<lparr>job_queue := []\<rparr>"

text \<open>\<^verbatim>\<open>job_condition_variable.notify_all()\<close>, the first statement of \<^verbatim>\<open>Join\<close>.\<close>

definition notify_all_job_NoKey :: "('w pc_NoKey \<times> bool) list \<Rightarrow> ('w pc_NoKey \<times> bool) list" where
  "notify_all_job_NoKey pool =
     map (\<lambda>(p, stop). (case p of Waiting_NoKey \<Rightarrow> Woken_NoKey | _ \<Rightarrow> p, stop)) pool"

definition notify_all_join_NoKey :: "joiner_NoKey list \<Rightarrow> joiner_NoKey list" where
  "notify_all_join_NoKey js = map (\<lambda>j. case j of Blocked_NoKey \<Rightarrow> Notified_NoKey | _ \<Rightarrow> j) js"

definition set_pc_NoKey :: "nat \<Rightarrow> 'w pc_NoKey \<Rightarrow> 'w system_NoKey \<Rightarrow> 'w system_NoKey" where
  "set_pc_NoKey i p s =
     s\<lparr>thread_pool_NoKey := (thread_pool_NoKey s)[i := (p, snd (thread_pool_NoKey s ! i))]\<rparr>"

definition JobDispatcherThread_NoKey :: "nat \<Rightarrow> 'w system_NoKey \<Rightarrow> 'w system_NoKey option" where
  "JobDispatcherThread_NoKey i s =
     (case thread_pool_NoKey s ! i of
        (AtTop_NoKey, stop) \<Rightarrow>
          (case job_queue (obj_NoKey s) of
             [] \<Rightarrow>
               (let busy = number_of_busy_threads (obj_NoKey s) - 1
                in Some (set_pc_NoKey i (if stop then Exited_NoKey else Waiting_NoKey)
                     (s\<lparr>obj_NoKey := (obj_NoKey s)\<lparr>number_of_busy_threads := busy\<rparr>,
                        joiners_NoKey := (if busy = 0 then notify_all_join_NoKey (joiners_NoKey s)
                                          else joiners_NoKey s)\<rparr>)))
           | job # rest \<Rightarrow>
               Some (set_pc_NoKey i (Running_NoKey job)
                       (s\<lparr>obj_NoKey := (obj_NoKey s)\<lparr>job_queue := rest\<rparr>\<rparr>)))
      | (Waiting_NoKey, stop) \<Rightarrow> None
      | (Woken_NoKey, stop) \<Rightarrow>
          (if stop \<or> job_queue (obj_NoKey s) \<noteq> []
           then (if stop \<and> job_queue (obj_NoKey s) = []
                 then Some (set_pc_NoKey i Exited_NoKey s)
                 else Some (set_pc_NoKey i AtTop_NoKey
                       (s\<lparr>obj_NoKey := (obj_NoKey s)\<lparr>number_of_busy_threads :=
                                           number_of_busy_threads (obj_NoKey s) + 1\<rparr>\<rparr>)))
           else Some (set_pc_NoKey i Waiting_NoKey s))
      | (Running_NoKey job, stop) \<Rightarrow>
          (case future_get job (world_NoKey s) of
             (Inl e, w) \<Rightarrow> Some (s\<lparr>world_NoKey := w, terminated_NoKey := True\<rparr>)
           | (Inr u, w) \<Rightarrow> Some (set_pc_NoKey i AtTop_NoKey (s\<lparr>world_NoKey := w\<rparr>)))
      | (Exited_NoKey, stop) \<Rightarrow> None)"

datatype ('w, 'r) event_NoKey =
    CallAdd_NoKey "(unit, 'w) comp"
  | CallAddWithCallback_NoKey "'r \<Rightarrow> (unit, 'w) comp" "('r, 'w) comp"
  | CallCancel_NoKey
  | CallJoin_NoKey
  | JoinRecheck_NoKey nat
  | CallDestructor_NoKey
  | Wakeup_NoKey nat
  | WorkerStep_NoKey nat

fun act_NoKey :: "('w, 'r) event_NoKey \<Rightarrow> 'w system_NoKey \<Rightarrow> 'w system_NoKey option" where
  "act_NoKey (CallAdd_NoKey func) s =
     (case push (Add_job func) (obj_NoKey s) of
        Inl e \<Rightarrow> Some s
      | Inr q \<Rightarrow> Some (s\<lparr>obj_NoKey := q\<rparr>))"
| "act_NoKey (CallAddWithCallback_NoKey callback func) s =
     (case push (AddWithCallback_job callback func) (obj_NoKey s) of
        Inl e \<Rightarrow> Some s
      | Inr q \<Rightarrow> Some (s\<lparr>obj_NoKey := q\<rparr>))"
| "act_NoKey CallCancel_NoKey s = Some (s\<lparr>obj_NoKey := Cancel_NoKey (obj_NoKey s)\<rparr>)"
| "act_NoKey CallJoin_NoKey s =
     Some (s\<lparr>thread_pool_NoKey := notify_all_job_NoKey (thread_pool_NoKey s),
             joiners_NoKey := joiners_NoKey s
               @ [if Join_NoKey_predicate (obj_NoKey s) then Returned_NoKey else Blocked_NoKey]\<rparr>)"
| "act_NoKey (JoinRecheck_NoKey j) s =
     (if j < length (joiners_NoKey s)
      then (case joiners_NoKey s ! j of
              Notified_NoKey \<Rightarrow>
                Some (s\<lparr>joiners_NoKey := (joiners_NoKey s)
                          [j := (if Join_NoKey_predicate (obj_NoKey s)
                                 then Returned_NoKey else Blocked_NoKey)]\<rparr>)
            | Blocked_NoKey \<Rightarrow> None
            | Returned_NoKey \<Rightarrow> None)
      else None)"
| "act_NoKey CallDestructor_NoKey s =
     Some (s\<lparr>thread_pool_NoKey :=
               map (\<lambda>(p, stop). (case p of Waiting_NoKey \<Rightarrow> Woken_NoKey | _ \<Rightarrow> p, True))
                 (thread_pool_NoKey s)\<rparr>)"
| "act_NoKey (Wakeup_NoKey i) s =
     (if i < length (thread_pool_NoKey s)
      then (case thread_pool_NoKey s ! i of
              (Waiting_NoKey, stop) \<Rightarrow> Some (set_pc_NoKey i Woken_NoKey s)
            | _ \<Rightarrow> None)
      else None)"
| "act_NoKey (WorkerStep_NoKey i) s =
     (if i < length (thread_pool_NoKey s) then JobDispatcherThread_NoKey i s else None)"

definition fire_NoKey :: "('w, 'r) event_NoKey \<Rightarrow> 'w system_NoKey \<Rightarrow> 'w system_NoKey option" where
  "fire_NoKey ev s = (if terminated_NoKey s then None else act_NoKey ev s)"

fun run_NoKey :: "('w, 'r) event_NoKey list \<Rightarrow> 'w system_NoKey \<Rightarrow> 'w system_NoKey option" where
  "run_NoKey [] s = Some s"
| "run_NoKey (ev # evs) s =
     (case fire_NoKey ev s of None \<Rightarrow> None | Some s' \<Rightarrow> run_NoKey evs s')"

section \<open>Notions the properties are stated with\<close>

text \<open>The key a worker has counted in \<open>in_progress_job_count_map\<close>, if any.\<close>

fun pc_key :: "('k, 'w) pc \<Rightarrow> 'k option" where
  "pc_key (Running key job) = Some key"
| "pc_key (Finished key) = Some key"
| "pc_key p = None"

text \<open>The number of queued entries of a key, and of workers holding an entry of a key.\<close>

definition queued :: "'k \<Rightarrow> ('k \<times> 'w job) list \<Rightarrow> nat" where
  "queued k jobs = length (filter (\<lambda>t. fst t = k) jobs)"

definition holding :: "'k \<Rightarrow> (('k, 'w) pc \<times> bool) list \<Rightarrow> nat" where
  "holding k pool = length (filter (\<lambda>t. pc_key (fst t) = Some k) pool)"

text \<open>The sparse representation of a count: no entry for 0.\<close>

definition sparse :: "nat \<Rightarrow> size_t option" where
  "sparse n = (if n = 0 then None else Some (of_nat n))"

definition accounting :: "('k, 'w) system \<Rightarrow> bool" where
  "accounting s =
     (length (job_list (obj s)) \<le> list_max_size
      \<and> length (thread_pool s) < 2 ^ 64
      \<and> (\<forall>k. pending_job_count_map (obj s) k = sparse (queued k (job_list (obj s))))
      \<and> (\<forall>k. in_progress_job_count_map (obj s) k = sparse (holding k (thread_pool s))))"

text \<open>The entries taken from the list whose \<^verbatim>\<open>job.get()\<close> has not been called yet.\<close>

definition in_flight :: "(('k, 'w) pc \<times> bool) list \<Rightarrow> ('k \<times> 'w job) list" where
  "in_flight pool =
     concat (map (\<lambda>t. case fst t of Running key job \<Rightarrow> [(key, job)] | _ \<Rightarrow> []) pool)"

fun is_Cancel :: "('k, 'w, 'r) event \<Rightarrow> bool" where
  "is_Cancel (CallCancel ts) = True"
| "is_Cancel ev = False"

definition no_cancel :: "('k, 'w, 'r) event list \<Rightarrow> bool" where
  "no_cancel evs = list_all (\<lambda>ev. \<not> is_Cancel ev) evs"

text \<open>
  The entries taken from the list, followed by those still in it, are the entries added.
\<close>

definition fifo :: "('k, 'w) system \<Rightarrow> bool" where
  "fifo s = (dispatched s @ job_list (obj s) = submitted s)"

text \<open>
  With at most one worker, the entries run are the entries taken, but for the one the
  worker holds and has not run yet.
\<close>

definition single :: "('k, 'w) system \<Rightarrow> bool" where
  "single s =
     (length (thread_pool s) \<le> 1
      \<and> started s @ (if terminated s then [] else in_flight (thread_pool s)) = dispatched s)"

text \<open>A pool without workers in which nothing was taken or run.\<close>

definition idle_pool :: "('k, 'w) system \<Rightarrow> bool" where
  "idle_pool s =
     (thread_pool s = [] \<and> started s = [] \<and> dispatched s = [] \<and> \<not> terminated s)"

text \<open>
  The steps that need no new call from outside: a worker's step, a wake-up of a worker,
  a notified caller of \<^verbatim>\<open>Join\<close> looking at its predicate again.
\<close>

fun is_internal :: "('k, 'w, 'r) event \<Rightarrow> bool" where
  "is_internal (Wakeup i) = True"
| "is_internal (WorkerStep i) = True"
| "is_internal (JoinRecheck j) = True"
| "is_internal ev = False"

text \<open>
  Nothing queued, no stop requested, every worker inside
  \<^verbatim>\<open>job_condition_variable.wait\<close>, no caller of \<^verbatim>\<open>Join\<close> notified.
\<close>

definition asleep :: "('k, 'w) system \<Rightarrow> bool" where
  "asleep s =
     (job_list (obj s) = []
      \<and> list_all (\<lambda>t. (fst t = Waiting \<or> fst t = Woken) \<and> snd t = False) (thread_pool s)
      \<and> list_all (\<lambda>j. case j of Notified ts \<Rightarrow> False | _ \<Rightarrow> True) (joiners s))"

fun is_Add :: "('k, 'w, 'r) event \<Rightarrow> bool" where
  "is_Add (CallAdd key func) = True"
| "is_Add (CallAddWithCallback key callback func) = True"
| "is_Add ev = False"

text \<open>No worker has left its loop, or nothing is queued.\<close>

definition drained :: "('k, 'w) system \<Rightarrow> bool" where
  "drained s =
     (list_all (\<lambda>t. fst t \<noteq> Exited) (thread_pool s) \<or> job_list (obj s) = [])"

text \<open>
  The workers of the \<open>NoKey\<close> specialization that are not inside the wait and have not
  left the loop; \<open>number_of_busy_threads\<close> counts them.
\<close>

definition busy :: "('w pc_NoKey \<times> bool) list \<Rightarrow> nat" where
  "busy pool =
     length (filter (\<lambda>t. case fst t of AtTop_NoKey \<Rightarrow> True | Running_NoKey job \<Rightarrow> True
                           | _ \<Rightarrow> False) pool)"

definition busy_counted :: "'w system_NoKey \<Rightarrow> bool" where
  "busy_counted s =
     (length (thread_pool_NoKey s) < 2 ^ 64
      \<and> number_of_busy_threads (obj_NoKey s) = of_nat (busy (thread_pool_NoKey s)))"












text \<open>
  Callables that record their calls: the world is paired with a log, to which the
  function appends that it was called and the callback the value it was called with.
\<close>

datatype 'r call = Func_called | Callback_called 'r

definition traced_func :: "('r, 'w) comp \<Rightarrow> ('r, 'w \<times> 'r call list) comp" where
  "traced_func func =
     (\<lambda>(w, log). case func w of (res, w') \<Rightarrow> (res, (w', log @ [Func_called])))"

definition traced_callback ::
  "('r \<Rightarrow> (unit, 'w) comp) \<Rightarrow> 'r \<Rightarrow> (unit, 'w \<times> 'r call list) comp" where
  "traced_callback callback r =
     (\<lambda>(w, log). case callback r w of (res, w') \<Rightarrow> (res, (w', log @ [Callback_called r])))"

text \<open>Two jobs for concrete runs: one appends a marker to a log, one throws.\<close>

definition log_marker :: "nat \<Rightarrow> (unit, nat list) comp" where
  "log_marker n = (\<lambda>w. (Inr (), w @ [n]))"

definition throwing :: "nat \<Rightarrow> (unit, nat list) comp" where
  "throwing n = (\<lambda>w. (Inl (Exception n), w))"

section \<open>Evaluating concrete runs\<close>

lemmas keyed_exec =
  fire_def JobDispatcherThread_def dequeue_def complete_def Add_def AddWithCallback_def
  emplace_back_def list_max_size_def subscript_def contains_def erase_def set_pc_def
  AsyncJobQueue_ctor_def notify_all_join_def Join_predicate_def Ready_def Cancel_def
  future_get_def Add_job_def AddWithCallback_job_def log_marker_def throwing_def

lemmas NoKey_exec =
  fire_NoKey_def JobDispatcherThread_NoKey_def push_def list_max_size_def set_pc_NoKey_def
  AsyncJobQueue_NoKey_ctor_def notify_all_join_NoKey_def notify_all_job_NoKey_def
  Join_NoKey_predicate_def Cancel_NoKey_def future_get_def Add_job_def AddWithCallback_job_def
  log_marker_def throwing_def

section \<open>The accounting maps count the entries and the workers\<close>

lemma length_filter_update:
  "i < length xs \<Longrightarrow>
     length (filter P (xs[i := y])) + (if P (xs ! i) then 1 else 0)
       = length (filter P xs) + (if P y then 1 else 0)"
proof (induction xs arbitrary: i)
  case Nil
  then show ?case by simp
next
  case (Cons x xs)
  show ?case
  proof (cases i)
    case 0
    then show ?thesis by simp
  next
    case (Suc j)
    with Cons.prems have "j < length xs" by simp
    from Cons.IH [OF this] Suc show ?thesis by simp
  qed
qed

lemma list_all_update:
  "list_all P xs \<Longrightarrow> P y \<Longrightarrow> list_all P (xs[i := y])"
  by (induction xs arbitrary: i) (auto split: nat.splits)

lemma holding_update:
  "i < length pool \<Longrightarrow>
     holding k (pool[i := (p, b)]) + (if pc_key (fst (pool ! i)) = Some k then 1 else 0)
       = holding k pool + (if pc_key p = Some k then 1 else 0)"
  unfolding holding_def
  using length_filter_update [of i pool "\<lambda>t. pc_key (fst t) = Some k" "(p, b)"] by simp

lemma holding_le: "holding k pool \<le> length pool"
  by (simp add: holding_def)

lemma queued_le: "queued k jobs \<le> length jobs"
  by (simp add: queued_def)

lemma sparse_subscript: "m k = sparse n \<Longrightarrow> subscript m k = of_nat n"
  by (simp add: sparse_def subscript_def split: if_splits)

lemma size_t_of_nat_eq_0: "n < 2 ^ 64 \<Longrightarrow> ((of_nat n :: size_t) = 0) = (n = 0)"
  using of_nat_neq_0 [of n, where 'a = 64] by auto

lemma sparse_Suc: "sparse (Suc n) = Some (of_nat n + 1)"
  by (simp add: sparse_def)

lemma sparse_pred: "n < 2 ^ 64 \<Longrightarrow>
   (if (of_nat n :: size_t) = 0 then None else Some (of_nat n)) = sparse n"
  by (simp add: sparse_def size_t_of_nat_eq_0)

lemma accounting_ctor: "accounting (AsyncJobQueue_ctor n w)"
proof -
  have "unat n < 2 ^ 64" using unsigned_less [of n, where 'a = nat] by simp
  then show ?thesis
    by (simp add: accounting_def AsyncJobQueue_ctor_def sparse_def queued_def holding_def
        list_max_size_def)
qed

lemma accounting_emplace_back:
  assumes "accounting s" and "emplace_back key job (obj s) = Inr q"
  shows "accounting (s\<lparr>obj := q, submitted := h\<rparr>)"
proof -
  from assms(2) have len: "length (job_list (obj s)) < list_max_size"
    and q: "q = (obj s)\<lparr>pending_job_count_map :=
                    (pending_job_count_map (obj s))(key \<mapsto> subscript (pending_job_count_map (obj s)) key + 1),
                  job_list := job_list (obj s) @ [(key, job)]\<rparr>"
    by (auto simp: emplace_back_def split: if_splits)
  have sub: "subscript (pending_job_count_map (obj s)) key = of_nat (queued key (job_list (obj s)))"
    using assms(1) by (simp add: accounting_def sparse_subscript)
  show ?thesis
    using assms(1) len unfolding accounting_def q
    by (auto simp: sub sparse_Suc queued_def)
qed


lemma fold_erase: "fold (\<lambda>t m. erase m t) ts m k = (if k \<in> set ts then None else m k)"
  by (induction ts arbitrary: m) (auto simp: erase_def)

lemma queued_filter:
  "queued k (filter (\<lambda>t. \<not> list_ex (\<lambda>k. fst t = k) ts) jobs) = (if k \<in> set ts then 0 else queued k jobs)"
  by (induction jobs) (auto simp: queued_def list_ex_iff)

lemma accounting_Cancel:
  assumes "accounting s"
  shows "accounting (s\<lparr>obj := Cancel ts (obj s)\<rparr>)"
proof (cases "ts = []")
  case True
  with assms show ?thesis
    by (simp add: accounting_def Cancel_def sparse_def queued_def)
next
  case False
  have "length (filter P (job_list (obj s))) \<le> list_max_size" for P
    using assms order_trans [OF length_filter_le] by (auto simp: accounting_def)
  with assms False show ?thesis
    by (simp add: accounting_def Cancel_def fold_erase queued_filter sparse_def)
qed

lemma holding_same_key:
  assumes "i < length pool" and "pc_key p = pc_key (fst (pool ! i))"
  shows "holding k (pool[i := (p, b)]) = holding k pool"
  using holding_update [OF assms(1), of k p b] assms(2) by (simp split: if_splits)

lemma accounting_set_pc_same:
  assumes "accounting s" and "i < length (thread_pool s)" and "pc_key p = pc_key (fst (thread_pool s ! i))"
  shows "accounting (set_pc i p s)"
  using assms by (simp add: accounting_def set_pc_def holding_same_key)

lemma accounting_Destructor:
  assumes "accounting s"
  shows "accounting (s\<lparr>thread_pool :=
               map (\<lambda>(p, stop). (case p of Waiting \<Rightarrow> Woken | _ \<Rightarrow> p, True)) (thread_pool s)\<rparr>)"
proof -
  have "holding k (map (\<lambda>(p, stop). (case p of Waiting \<Rightarrow> Woken | _ \<Rightarrow> p, True)) pool) = holding k pool"
    for k :: 'a and pool :: "(('a, 'b) pc \<times> bool) list"
    by (induction pool) (auto simp: holding_def split: pc.splits)
  with assms show ?thesis by (simp add: accounting_def)
qed


lemma accounting_dequeue:
  assumes "accounting s" and "i < length (thread_pool s)" and "pc_key (fst (thread_pool s ! i)) = None"
    and "dequeue (obj s) = Some (key, job, q)"
  shows "accounting (set_pc i (Running key job) (s\<lparr>obj := q, dispatched := h\<rparr>))"
proof -
  from assms(4) obtain rest where jl: "job_list (obj s) = (key, job) # rest"
    by (auto simp: dequeue_def split: list.splits)
  let ?n = "queued key rest"
  have qk: "queued key (job_list (obj s)) = Suc ?n" by (simp add: jl queued_def)
  have n: "?n < 2 ^ 64"
    using assms(1) queued_le [of key rest] by (simp add: accounting_def jl list_max_size_def)
  have psub: "subscript (pending_job_count_map (obj s)) key = of_nat (Suc ?n)"
    using assms(1) qk by (simp add: accounting_def sparse_subscript)
  have isub: "subscript (in_progress_job_count_map (obj s)) key = of_nat (holding key (thread_pool s))"
    using assms(1) by (simp add: accounting_def sparse_subscript)
  have q: "q = (obj s)\<lparr>in_progress_job_count_map :=
                     (in_progress_job_count_map (obj s))(key \<mapsto> of_nat (holding key (thread_pool s)) + 1),
                   pending_job_count_map :=
                     (if (of_nat ?n :: size_t) = 0
                      then erase (pending_job_count_map (obj s)) key
                      else (pending_job_count_map (obj s))(key \<mapsto> of_nat ?n)),
                   job_list := rest\<rparr>"
    using assms(4) by (auto simp: dequeue_def jl psub isub Let_def)
  have hold: "holding k ((thread_pool s)[i := (Running key job, b)])
                = holding k (thread_pool s) + (if k = key then 1 else 0)" for k b
    using holding_update [OF assms(2), of k "Running key job" b] assms(3) by auto
  have pend: "pending_job_count_map q k = sparse (queued k rest)" for k
  proof (cases "k = key")
    case True
    then show ?thesis using sparse_pred [OF n] by (simp add: q erase_def split: if_splits)
  next
    case False
    then have "queued k (job_list (obj s)) = queued k rest" by (auto simp: jl queued_def)
    with False assms(1) show ?thesis by (simp add: q erase_def accounting_def)
  qed
  have inp: "in_progress_job_count_map q k
               = sparse (holding k ((thread_pool s)[i := (Running key job, b)]))" for k b
    using assms(1) by (simp add: q hold accounting_def sparse_Suc)
  show ?thesis
    using assms(1) pend inp by (simp add: accounting_def set_pc_def jl q)
qed

lemma accounting_complete:
  assumes "accounting s" and "i < length (thread_pool s)" and "fst (thread_pool s ! i) = Finished key"
  shows "\<exists>q notify. complete key (obj s) = Some (q, notify)
           \<and> accounting (set_pc i AtTop (s\<lparr>obj := q, joiners := js\<rparr>))"
proof -
  let ?pool' = "(thread_pool s)[i := (AtTop, snd (thread_pool s ! i))]"
  have hold: "holding k ?pool' + (if k = key then 1 else 0) = holding k (thread_pool s)" for k
    using holding_update [OF assms(2), of k AtTop "snd (thread_pool s ! i)"] assms(3) by auto
  let ?n = "holding key ?pool'"
  have hk: "holding key (thread_pool s) = Suc ?n" using hold [of key] by simp
  have n: "?n < 2 ^ 64"
    using assms(1) holding_le [of key ?pool'] by (simp add: accounting_def)
  have ip: "in_progress_job_count_map (obj s) key = Some (of_nat (Suc ?n))"
    using assms(1) hk by (simp add: accounting_def sparse_def)
  define q where "q = (obj s)\<lparr>in_progress_job_count_map :=
      (if (of_nat ?n :: size_t) = 0 then erase (in_progress_job_count_map (obj s)) key
       else (in_progress_job_count_map (obj s))(key \<mapsto> of_nat ?n))\<rparr>"
  have c: "\<exists>notify. complete key (obj s) = Some (q, notify)"
    by (auto simp: complete_def ip Let_def q_def)
  have inp: "in_progress_job_count_map q k = sparse (holding k ?pool')" for k
  proof (cases "k = key")
    case True
    then show ?thesis using sparse_pred [OF n] by (simp add: q_def erase_def split: if_splits)
  next
    case False
    with hold [of k] assms(1) show ?thesis by (simp add: q_def erase_def accounting_def)
  qed
  have "accounting (set_pc i AtTop (s\<lparr>obj := q, joiners := js\<rparr>))"
    using assms(1) inp by (simp add: accounting_def set_pc_def) (simp add: q_def)
  with c show ?thesis by blast
qed


lemma accounting_frame [simp]:
  "accounting (s\<lparr>joiners := js\<rparr>) = accounting s"
  "accounting (s\<lparr>world := w\<rparr>) = accounting s"
  "accounting (s\<lparr>terminated := b\<rparr>) = accounting s"
  "accounting (s\<lparr>started := h\<rparr>) = accounting s"
  by (simp_all add: accounting_def)

lemma accounting_JobDispatcherThread:
  assumes "accounting s" and "i < length (thread_pool s)" and "JobDispatcherThread i s = Some s'"
  shows "accounting s'"
proof -
  obtain p stop where ps: "thread_pool s ! i = (p, stop)" by (cases "thread_pool s ! i")
  show ?thesis
  proof (cases p)
    case AtTop
    show ?thesis
    proof (cases "dequeue (obj s)")
      case None
      have "accounting (set_pc i (if stop then Exited else Waiting) (s\<lparr>joiners := notify_all_join (joiners s)\<rparr>))"
        by (rule accounting_set_pc_same) (use assms ps AtTop in auto)
      with assms(3) ps AtTop None show ?thesis by (simp add: JobDispatcherThread_def)
    next
      case (Some a)
      then obtain key job q where d: "dequeue (obj s) = Some (key, job, q)" by (cases a) auto
      have "accounting (set_pc i (Running key job) (s\<lparr>obj := q, dispatched := dispatched s @ [(key, job)]\<rparr>))"
        by (rule accounting_dequeue) (use assms ps AtTop d in auto)
      with assms(3) ps AtTop d show ?thesis by (simp add: JobDispatcherThread_def)
    qed
  next
    case Waiting
    with assms(3) ps show ?thesis by (simp add: JobDispatcherThread_def)
  next
    case Woken
    have "accounting (set_pc i p' s)" if "pc_key p' = None" for p'
      by (rule accounting_set_pc_same) (use assms ps Woken that in auto)
    with assms(3) ps Woken show ?thesis
      by (auto simp: JobDispatcherThread_def split: if_splits)
  next
    case (Running key job)
    have "accounting (set_pc i (Finished key) (s\<lparr>world := w, started := h\<rparr>))" for w h
      by (rule accounting_set_pc_same) (use assms ps Running in auto)
    with assms(1,3) ps Running show ?thesis
      by (auto simp: JobDispatcherThread_def split: prod.splits sum.splits)
  next
    case (Finished key)
    with ps have "fst (thread_pool s ! i) = Finished key" by simp
    from accounting_complete [OF assms(1,2) this]
    show ?thesis using assms(3) ps Finished
      by (fastforce simp: JobDispatcherThread_def split: option.splits)
  next
    case Exited
    with assms(3) ps show ?thesis by (simp add: JobDispatcherThread_def)
  qed
qed

lemma accounting_fire:
  assumes "accounting s" and "fire ev s = Some s'"
  shows "accounting s'"
proof -
  from assms(2) have a: "act ev s = Some s'" by (simp add: fire_def split: if_splits)
  show ?thesis
  proof (cases ev)
    case (CallAdd key func)
    with a assms(1) show ?thesis
      by (auto simp: Add_def split: sum.splits dest: accounting_emplace_back)
  next
    case (CallAddWithCallback key callback func)
    with a assms(1) show ?thesis
      by (auto simp: AddWithCallback_def split: sum.splits dest: accounting_emplace_back)
  next
    case (CallCancel ts)
    with a assms(1) show ?thesis by (auto simp: accounting_Cancel)
  next
    case (CallJoin ts)
    with a assms(1) show ?thesis by auto
  next
    case (JoinRecheck j)
    with a assms(1) show ?thesis by (auto split: if_splits joiner.splits)
  next
    case CallDestructor
    with a assms(1) show ?thesis by (auto simp: accounting_Destructor)
  next
    case (Wakeup i)
    have "accounting (set_pc i Woken s)" if "i < length (thread_pool s)" "fst (thread_pool s ! i) = Waiting"
      by (rule accounting_set_pc_same) (use assms(1) that in auto)
    with a Wakeup show ?thesis by (auto split: if_splits prod.splits pc.splits)
  next
    case (WorkerStep i)
    with a assms(1) show ?thesis
      by (auto split: if_splits dest: accounting_JobDispatcherThread)
  qed
qed

lemma accounting_run:
  "accounting s \<Longrightarrow> run evs s = Some s' \<Longrightarrow> accounting s'"
  by (induction evs arbitrary: s) (auto split: option.splits dest: accounting_fire)

lemma size_t_unat_of_nat: "n < 2 ^ 64 \<Longrightarrow> unat (of_nat n :: size_t) = n"
  by (simp add: unat_of_nat)

lemma sparse_facts:
  assumes "m k = sparse n" and "n < 2 ^ 64"
  shows "contains m k = (0 < n)" and "unat (subscript m k) = n" and "contains m k = (subscript m k \<noteq> 0)"
  using assms size_t_of_nat_eq_0 [of n]
  by (auto simp: sparse_def contains_def subscript_def size_t_unat_of_nat split: if_splits)

text \<open>
  Claim C6. In every state reached from the constructor by any interleaving of
  \<^verbatim>\<open>Add\<close>, \<^verbatim>\<open>AddWithCallback\<close>, \<^verbatim>\<open>Cancel\<close>, \<^verbatim>\<open>Join\<close>, the destructor's stop request
  and worker steps, a key is in \<open>pending_job_count_map\<close> exactly when entries of that key
  are queued, and in \<open>in_progress_job_count_map\<close> exactly when workers hold entries of
  that key. The stored count (0 when the key is absent) is the number of those entries
  or workers, so a key that is present never has the count 0.
\<close>

theorem sparse_map_invariant:
  assumes "run evs (AsyncJobQueue_ctor number_of_threads w) = Some s"
  shows "contains (pending_job_count_map (obj s)) k = (0 < queued k (job_list (obj s)))
       \<and> contains (in_progress_job_count_map (obj s)) k = (0 < holding k (thread_pool s))
       \<and> unat (subscript (pending_job_count_map (obj s)) k) = queued k (job_list (obj s))
       \<and> unat (subscript (in_progress_job_count_map (obj s)) k) = holding k (thread_pool s)
       \<and> contains (pending_job_count_map (obj s)) k
           = (subscript (pending_job_count_map (obj s)) k \<noteq> 0)
       \<and> contains (in_progress_job_count_map (obj s)) k
           = (subscript (in_progress_job_count_map (obj s)) k \<noteq> 0)"
proof -
  have acc: "accounting s"
    using accounting_run [OF accounting_ctor assms] .
  have p: "pending_job_count_map (obj s) k = sparse (queued k (job_list (obj s)))"
    and i: "in_progress_job_count_map (obj s) k = sparse (holding k (thread_pool s))"
    using acc by (simp_all add: accounting_def)
  have pb: "queued k (job_list (obj s)) < 2 ^ 64"
    using acc queued_le [of k "job_list (obj s)"] by (simp add: accounting_def list_max_size_def)
  have ib: "holding k (thread_pool s) < 2 ^ 64"
    using acc holding_le [of k "thread_pool s"] by (simp add: accounting_def)
  show ?thesis
    using sparse_facts [of "pending_job_count_map (obj s)" k, OF p pb]
      sparse_facts [of "in_progress_job_count_map (obj s)" k, OF i ib] by simp
qed

theorem sparse_map_invariant_witness:
  "\<exists>s. run [CallAdd ''a'' (log_marker 1), CallAdd ''b'' (log_marker 2), WorkerStep 0 :: (string, nat list, unit) event]
          (AsyncJobQueue_ctor 1 []) = Some s
     \<and> \<not> contains (pending_job_count_map (obj s)) ''a''
     \<and> queued ''a'' (job_list (obj s)) = 0
     \<and> contains (in_progress_job_count_map (obj s)) ''a''
     \<and> holding ''a'' (thread_pool s) = 1
     \<and> contains (pending_job_count_map (obj s)) ''b''
     \<and> queued ''b'' (job_list (obj s)) = 1"
proof -
  obtain s where r: "run [CallAdd ''a'' (log_marker 1), CallAdd ''b'' (log_marker 2), WorkerStep 0 :: (string, nat list, unit) event]
          (AsyncJobQueue_ctor 1 []) = Some s"
    by (simp add: keyed_exec)
  have "pending_job_count_map (obj s) ''a'' = None" "subscript (in_progress_job_count_map (obj s)) ''a'' = 1"
    "subscript (pending_job_count_map (obj s)) ''b'' = 1"
    using r by (auto simp: keyed_exec)
  then show ?thesis
    using sparse_map_invariant [OF r, of "''a''"] sparse_map_invariant [OF r, of "''b''"] r
    by (auto simp: contains_def)
qed

section \<open>Cancel\<close>

text \<open>
  Claim C7. \<^verbatim>\<open>Cancel(ts...)\<close> with at least one key removes from the job list exactly
  the entries whose key is one of \<open>ts\<close>, keeping the others in their order, erases
  exactly the keys \<open>ts\<close> from \<open>pending_job_count_map\<close>, and leaves
  \<open>in_progress_job_count_map\<close> as it was.
\<close>

theorem Cancel_selective:
  assumes "ts \<noteq> []"
  shows "job_list (Cancel ts q) = filter (\<lambda>t. fst t \<notin> set ts) (job_list q)
       \<and> pending_job_count_map (Cancel ts q)
           = (\<lambda>k. if k \<in> set ts then None else pending_job_count_map q k)
       \<and> in_progress_job_count_map (Cancel ts q) = in_progress_job_count_map q"
  using assms by (auto simp: Cancel_def fold_erase list_ex_iff intro: filter_cong)

theorem Cancel_selective_witness:
  "[''B''] \<noteq> []
   \<and> map fst (job_list (Cancel [''B'']
        \<lparr>in_progress_job_count_map = [''B'' \<mapsto> 1], pending_job_count_map = [''A'' \<mapsto> 2, ''B'' \<mapsto> 1],
         job_list = [(''A'', log_marker 1), (''B'', log_marker 2), (''A'', log_marker 3)]\<rparr>))
       = [''A'', ''A'']
   \<and> pending_job_count_map (Cancel [''B'']
        \<lparr>in_progress_job_count_map = [''B'' \<mapsto> 1], pending_job_count_map = [''A'' \<mapsto> 2, ''B'' \<mapsto> 1],
         job_list = [(''A'', log_marker 1), (''B'', log_marker 2), (''A'', log_marker 3)]\<rparr>) ''B'' = None
   \<and> pending_job_count_map (Cancel [''B'']
        \<lparr>in_progress_job_count_map = [''B'' \<mapsto> 1], pending_job_count_map = [''A'' \<mapsto> 2, ''B'' \<mapsto> 1],
         job_list = [(''A'', log_marker 1), (''B'', log_marker 2), (''A'', log_marker 3)]\<rparr>) ''A'' = Some 2
   \<and> in_progress_job_count_map (Cancel [''B'']
        \<lparr>in_progress_job_count_map = [''B'' \<mapsto> 1], pending_job_count_map = [''A'' \<mapsto> 2, ''B'' \<mapsto> 1],
         job_list = [(''A'', log_marker 1), (''B'', log_marker 2), (''A'', log_marker 3)]\<rparr>) ''B'' = Some 1"
  using Cancel_selective [of "[''B'']"
        "\<lparr>in_progress_job_count_map = [''B'' \<mapsto> 1], pending_job_count_map = [''A'' \<mapsto> 2, ''B'' \<mapsto> 1],
         job_list = [(''A'', log_marker 1), (''B'', log_marker 2), (''A'', log_marker 3)]\<rparr>"]
  by simp

section \<open>Ready\<close>

lemma Ready_without_keys: "Ready [] q = (job_list q = [])"
  by (simp add: Ready_def)

lemma Ready_with_keys:
  "Ready ts q =
     (job_list q = []
      \<and> (\<forall>t \<in> set ts. pending_job_count_map q t = None \<and> in_progress_job_count_map q t = None))"
  by (auto simp: Ready_def contains_def list_all_iff split: option.splits)

text \<open>
  Claim C1 says that \<^verbatim>\<open>Ready()\<close> without keys is true only when the job list and both
  maps are empty. The fold expressions over the empty pack are true, so \<^verbatim>\<open>Ready()\<close>
  looks at the job list alone. In the state reached by one \<^verbatim>\<open>Add("a", f)\<close> and the
  worker's dequeue, the job is in progress: \<^verbatim>\<open>Ready()\<close> is true although
  \<open>in_progress_job_count_map\<close> holds \<open>"a"\<close>, while the predicate that \<^verbatim>\<open>Join()\<close>
  without keys waits for is false there.
\<close>

theorem Ready_without_keys_ignores_maps:
  "run [CallAdd ''a'' (log_marker 1), WorkerStep 0 :: (string, nat list, unit) event] (AsyncJobQueue_ctor 1 []) \<noteq> None
   \<and> Ready [] (obj (the (run [CallAdd ''a'' (log_marker 1), WorkerStep 0 :: (string, nat list, unit) event]
                        (AsyncJobQueue_ctor 1 []))))
   \<and> in_progress_job_count_map (obj (the (run [CallAdd ''a'' (log_marker 1), WorkerStep 0 :: (string, nat list, unit) event]
                        (AsyncJobQueue_ctor 1 [])))) ''a'' = Some 1
   \<and> \<not> Join_predicate [] (obj (the (run [CallAdd ''a'' (log_marker 1), WorkerStep 0 :: (string, nat list, unit) event]
                        (AsyncJobQueue_ctor 1 []))))"
  by (simp add: keyed_exec)

section \<open>The order of dequeuing and of execution\<close>

lemma set_pc_fields [simp]:
  "obj (set_pc i p s) = obj s" "world (set_pc i p s) = world s"
  "terminated (set_pc i p s) = terminated s" "joiners (set_pc i p s) = joiners s"
  "submitted (set_pc i p s) = submitted s" "dispatched (set_pc i p s) = dispatched s"
  "started (set_pc i p s) = started s"
  "thread_pool (set_pc i p s) = (thread_pool s)[i := (p, snd (thread_pool s ! i))]"
  by (simp_all add: set_pc_def)

lemma emplace_back_job_list:
  "emplace_back key job q = Inr q' \<Longrightarrow> job_list q' = job_list q @ [(key, job)]"
  by (auto simp: emplace_back_def split: if_splits)

lemma dequeue_job_list:
  "dequeue q = Some (key, job, q') \<Longrightarrow> job_list q = (key, job) # job_list q'"
  by (auto simp: dequeue_def Let_def split: list.splits)

lemma dequeue_None: "(dequeue q = None) = (job_list q = [])"
  by (auto simp: dequeue_def Let_def split: list.splits)

lemma complete_job_list:
  "complete key q = Some (q', notify) \<Longrightarrow> job_list q' = job_list q \<and> pending_job_count_map q' = pending_job_count_map q"
  by (auto simp: complete_def Let_def split: option.splits if_splits)

lemma fifo_JobDispatcherThread:
  assumes "fifo s" and "JobDispatcherThread i s = Some s'"
  shows "fifo s'"
proof -
  obtain p stop where ps: "thread_pool s ! i = (p, stop)" by (cases "thread_pool s ! i")
  show ?thesis
  proof (cases p)
    case AtTop
    with assms ps show ?thesis
      by (auto simp: JobDispatcherThread_def fifo_def split: option.splits dest: dequeue_job_list)
  next
    case (Finished key)
    with assms ps show ?thesis
      by (auto simp: JobDispatcherThread_def fifo_def split: option.splits dest: complete_job_list)
  qed (use assms ps in \<open>auto simp: JobDispatcherThread_def fifo_def split: if_splits prod.splits sum.splits\<close>)
qed

lemma fifo_fire:
  assumes "fifo s" and "fire ev s = Some s'" and "\<not> is_Cancel ev"
  shows "fifo s'"
proof -
  from assms(2) have a: "act ev s = Some s'" by (simp add: fire_def split: if_splits)
  show ?thesis
  proof (cases ev)
    case (CallAdd key func)
    with a assms(1) show ?thesis
      by (auto simp: Add_def fifo_def split: sum.splits dest: emplace_back_job_list)
  next
    case (CallAddWithCallback key callback func)
    with a assms(1) show ?thesis
      by (auto simp: AddWithCallback_def fifo_def split: sum.splits dest: emplace_back_job_list)
  next
    case (CallCancel ts)
    with assms(3) show ?thesis by simp
  next
    case (WorkerStep i)
    with a assms(1) show ?thesis by (auto split: if_splits dest: fifo_JobDispatcherThread)
  qed (use a assms(1) in \<open>auto simp: fifo_def split: if_splits joiner.splits prod.splits pc.splits\<close>)
qed

lemma fifo_run:
  "fifo s \<Longrightarrow> run evs s = Some s' \<Longrightarrow> no_cancel evs \<Longrightarrow> fifo s'"
  by (induction evs arbitrary: s) (auto simp: no_cancel_def split: option.splits dest: fifo_fire)

lemma fifo_ctor: "fifo (AsyncJobQueue_ctor n w)"
  by (simp add: fifo_def AsyncJobQueue_ctor_def)

lemma single_pool:
  assumes "length pool \<le> 1" and "i < length pool"
  shows "i = 0 \<and> pool = [pool ! 0]"
  using assms by (cases pool) auto

lemma single_JobDispatcherThread:
  assumes "single s" and "i < length (thread_pool s)" and "JobDispatcherThread i s = Some s'"
    and "\<not> terminated s"
  shows "single s'"
proof -
  from assms(1,2) have i0: "i = 0" and pool: "thread_pool s = [thread_pool s ! 0]"
    using single_pool [of "thread_pool s" i] by (simp_all add: single_def)
  obtain p stop where ps: "thread_pool s ! 0 = (p, stop)" by (cases "thread_pool s ! 0")
  from pool ps have pl: "thread_pool s = [(p, stop)]" by simp
  show ?thesis
    using assms(1,3,4) unfolding i0
    by (cases p)
      (auto simp: JobDispatcherThread_def single_def in_flight_def pl
            split: option.splits if_splits prod.splits sum.splits)
qed

lemma in_flight_Destructor:
  "in_flight (map (\<lambda>(p, stop). (case p of Waiting \<Rightarrow> Woken | _ \<Rightarrow> p, True)) pool) = in_flight pool"
  by (induction pool) (auto simp: in_flight_def split: pc.splits)

lemma single_fire:
  assumes "single s" and "fire ev s = Some s'"
  shows "single s'"
proof -
  from assms(2) have a: "act ev s = Some s'" and nt: "\<not> terminated s"
    by (simp_all add: fire_def split: if_splits)
  show ?thesis
  proof (cases ev)
    case (WorkerStep i)
    with a nt assms(1) show ?thesis by (auto split: if_splits dest: single_JobDispatcherThread)
  next
    case (Wakeup i)
    show ?thesis
    proof (cases "i < length (thread_pool s)")
      case True
      with assms(1) have i0: "i = 0" and pool: "thread_pool s = [thread_pool s ! 0]"
        using single_pool [of "thread_pool s" i] by (simp_all add: single_def)
      obtain p stop where ps: "thread_pool s ! 0 = (p, stop)" by (cases "thread_pool s ! 0")
      from pool ps have pl: "thread_pool s = [(p, stop)]" by simp
      from a nt Wakeup assms(1) show ?thesis unfolding i0
        by (auto simp: single_def in_flight_def pl split: if_splits pc.splits)
    next
      case False
      with a Wakeup show ?thesis by simp
    qed
  next
    case CallDestructor
    with a nt assms(1) show ?thesis by (auto simp: single_def in_flight_Destructor)
  qed (use a nt assms(1) in \<open>auto simp: single_def split: if_splits joiner.splits sum.splits\<close>)
qed

lemma single_run:
  "single s \<Longrightarrow> run evs s = Some s' \<Longrightarrow> single s'"
  by (induction evs arbitrary: s) (auto split: option.splits dest: single_fire)

lemma single_ctor: "unat n \<le> 1 \<Longrightarrow> single (AsyncJobQueue_ctor n w)"
  by (cases "unat n") (auto simp: single_def AsyncJobQueue_ctor_def in_flight_def)

text \<open>
  Claim C5, as amended. For every run of \<^verbatim>\<open>Add\<close> and \<^verbatim>\<open>AddWithCallback\<close> calls (any
  mix of keys, no \<^verbatim>\<open>Cancel\<close>) and worker steps, the workers take the head of the one
  shared list: the entries dequeued so far, in the order they were dequeued, followed by
  the entries still queued, are the entries in the order they were submitted. In a pool
  of at most one worker the jobs also begin execution in submission order.
\<close>

theorem dequeue_order_is_submission_order:
  assumes "run evs (AsyncJobQueue_ctor number_of_threads w) = Some s" and "no_cancel evs"
  shows "dispatched s @ job_list (obj s) = submitted s
       \<and> (unat number_of_threads \<le> 1 \<longrightarrow> prefix (started s) (submitted s))"
proof -
  have f: "fifo s" using fifo_run [OF fifo_ctor assms] .
  have "prefix (started s) (submitted s)" if "unat number_of_threads \<le> 1"
  proof -
    have "single s" using single_run [OF single_ctor [OF that] assms(1)] .
    then obtain rest where "started s @ rest = dispatched s"
      unfolding single_def by blast
    have "submitted s = dispatched s @ job_list (obj s)"
      using f by (simp add: fifo_def)
    also have "dispatched s = started s @ rest"
      using \<open>started s @ rest = dispatched s\<close> by simp
    finally have "submitted s = started s @ (rest @ job_list (obj s))" by simp
    then show ?thesis by (rule prefixI)
  qed
  with f show ?thesis by (simp add: fifo_def)
qed


theorem dequeue_order_is_submission_order_witness:
  "\<exists>s. run [CallAdd ''a'' (log_marker 1), CallAdd ''b'' (log_marker 2), WorkerStep 0, WorkerStep 0,
              WorkerStep 0, WorkerStep 0, WorkerStep 0 :: (string, nat list, unit) event]
          (AsyncJobQueue_ctor 1 []) = Some s
     \<and> no_cancel [CallAdd ''a'' (log_marker 1), CallAdd ''b'' (log_marker 2), WorkerStep 0,
              WorkerStep 0, WorkerStep 0, WorkerStep 0, WorkerStep 0 :: (string, nat list, unit) event]
     \<and> unat (1 :: size_t) \<le> 1
     \<and> dispatched s @ job_list (obj s) = submitted s
     \<and> prefix (started s) (submitted s)
     \<and> map fst (started s) = [''a'', ''b'']
     \<and> world s = [1, 2]"
proof -
  let ?evs = "[CallAdd ''a'' (log_marker 1), CallAdd ''b'' (log_marker 2), WorkerStep 0, WorkerStep 0,
              WorkerStep 0, WorkerStep 0, WorkerStep 0 :: (string, nat list, unit) event]"
  obtain s where r: "run ?evs (AsyncJobQueue_ctor 1 []) = Some s"
    by (simp add: keyed_exec)
  have n: "no_cancel ?evs" by (simp add: no_cancel_def)
  have v: "map fst (started s) = [''a'', ''b'']" "world s = [1, 2]"
    using r by (auto simp: keyed_exec)
  show ?thesis
    using dequeue_order_is_submission_order [OF r n] r n v by simp
qed

text \<open>
  With two workers the order in which jobs begin execution is not the submission order:
  worker 0 takes the entry of \<open>"a"\<close> and releases the mutex, worker 1 takes the entry of
  \<open>"b"\<close> and calls \<^verbatim>\<open>job.get()\<close> before worker 0 does.
\<close>

theorem execution_order_two_workers_counterexample:
  "run [CallAdd ''a'' (log_marker 1), CallAdd ''b'' (log_marker 2), WorkerStep 0, WorkerStep 1,
        WorkerStep 1, WorkerStep 0 :: (string, nat list, unit) event] (AsyncJobQueue_ctor 2 []) \<noteq> None
   \<and> map fst (submitted (the (run [CallAdd ''a'' (log_marker 1), CallAdd ''b'' (log_marker 2),
        WorkerStep 0, WorkerStep 1, WorkerStep 1, WorkerStep 0 :: (string, nat list, unit) event]
        (AsyncJobQueue_ctor 2 [])))) = [''a'', ''b'']
   \<and> map fst (started (the (run [CallAdd ''a'' (log_marker 1), CallAdd ''b'' (log_marker 2),
        WorkerStep 0, WorkerStep 1, WorkerStep 1, WorkerStep 0 :: (string, nat list, unit) event]
        (AsyncJobQueue_ctor 2 [])))) = [''b'', ''a'']
   \<and> world (the (run [CallAdd ''a'' (log_marker 1), CallAdd ''b'' (log_marker 2),
        WorkerStep 0, WorkerStep 1, WorkerStep 1, WorkerStep 0 :: (string, nat list, unit) event]
        (AsyncJobQueue_ctor 2 []))) = [2, 1]
   \<and> \<not> prefix
        (started (the (run [CallAdd ''a'' (log_marker 1), CallAdd ''b'' (log_marker 2),
           WorkerStep 0, WorkerStep 1, WorkerStep 1, WorkerStep 0 :: (string, nat list, unit) event]
           (AsyncJobQueue_ctor 2 []))))
        (submitted (the (run [CallAdd ''a'' (log_marker 1), CallAdd ''b'' (log_marker 2),
           WorkerStep 0, WorkerStep 1, WorkerStep 1, WorkerStep 0 :: (string, nat list, unit) event]
           (AsyncJobQueue_ctor 2 []))))"
  by (simp add: keyed_exec)

section \<open>A pool without threads\<close>

lemma idle_pool_fire:
  assumes "idle_pool s" and "fire ev s = Some s'"
  shows "idle_pool s' \<and> world s' = world s"
proof -
  from assms(2) have a: "act ev s = Some s'" by (simp add: fire_def split: if_splits)
  with assms(1) show ?thesis
    by (cases ev) (auto simp: idle_pool_def split: sum.splits if_splits joiner.splits)
qed

lemma idle_pool_run:
  "idle_pool s \<Longrightarrow> run evs s = Some s' \<Longrightarrow> idle_pool s' \<and> world s' = world s"
proof (induction evs arbitrary: s)
  case Nil
  then show ?case by simp
next
  case (Cons ev evs)
  from Cons.prems(2) obtain s1 where f: "fire ev s = Some s1" and r: "run evs s1 = Some s'"
    by (auto split: option.splits)
  from idle_pool_fire [OF Cons.prems(1) f] Cons.IH [OF _ r] show ?case by simp
qed

lemma Join_predicate_job_list: "Join_predicate ts q \<Longrightarrow> job_list q = []"
  by (simp add: Join_predicate_def Ready_def split: if_splits)

text \<open>
  Claim C10. The constructor takes \<open>number_of_threads = 0\<close> as it takes any other
  value, and the default argument is 0 when \<^verbatim>\<open>hardware_concurrency()\<close> is 0. A pool
  made with 0 has no worker: in every state it reaches no entry was dequeued and no job
  was run, the world is as it was, the predicate of \<^verbatim>\<open>Join\<close> (with any keys) is false
  while the job list is not empty, and without \<^verbatim>\<open>Cancel\<close> every submitted entry is
  still in the job list.
\<close>

theorem zero_thread_pool_never_executes:
  assumes "run evs (AsyncJobQueue_ctor 0 w) = Some s"
  shows "thread_pool s = [] \<and> dispatched s = [] \<and> started s = [] \<and> world s = w
       \<and> (job_list (obj s) \<noteq> [] \<longrightarrow> \<not> Join_predicate ts (obj s))
       \<and> (no_cancel evs \<longrightarrow> job_list (obj s) = submitted s)
       \<and> default_number_of_threads 0 = 0"
proof -
  have "idle_pool (AsyncJobQueue_ctor 0 w :: ('a, 'b) system)"
    by (simp add: idle_pool_def AsyncJobQueue_ctor_def)
  from idle_pool_run [OF this assms]
  have i: "idle_pool s" and w: "world s = w" by (simp_all add: AsyncJobQueue_ctor_def)
  have "job_list (obj s) = submitted s" if "no_cancel evs"
    using fifo_run [OF fifo_ctor assms that] i by (simp add: fifo_def idle_pool_def)
  then show ?thesis
    using i w Join_predicate_job_list [of ts "obj s"]
    by (auto simp: idle_pool_def default_number_of_threads_def)
qed

theorem zero_thread_pool_never_executes_witness:
  "\<exists>s. run [CallAdd ''a'' (log_marker 1), CallJoin [''a''] :: (string, nat list, unit) event]
          (AsyncJobQueue_ctor 0 []) = Some s
     \<and> no_cancel [CallAdd ''a'' (log_marker 1), CallJoin [''a''] :: (string, nat list, unit) event]
     \<and> job_list (obj s) \<noteq> []
     \<and> thread_pool s = [] \<and> started s = [] \<and> world s = []
     \<and> \<not> Join_predicate [''a''] (obj s)
     \<and> job_list (obj s) = submitted s
     \<and> joiners s = [Blocked [''a'']]"
proof -
  let ?evs = "[CallAdd ''a'' (log_marker 1), CallJoin [''a''] :: (string, nat list, unit) event]"
  obtain s where r: "run ?evs (AsyncJobQueue_ctor 0 []) = Some s"
    by (simp add: keyed_exec)
  have n: "no_cancel ?evs" by (simp add: no_cancel_def)
  have v: "job_list (obj s) \<noteq> []" "joiners s = [Blocked [''a'']]"
    using r by (auto simp: keyed_exec)
  show ?thesis
    using zero_thread_pool_never_executes [OF r, of "[''a'']"] r n v by simp
qed

section \<open>Stop requests\<close>

text \<open>
  Over whole runs: from a state in which no worker has exited, as long as nothing new is
  added, a worker has exited only if the job list is empty.
\<close>

lemma not_Exited_update:
  "list_all (\<lambda>t. fst t \<noteq> Exited) pool \<Longrightarrow> p \<noteq> Exited \<Longrightarrow>
     list_all (\<lambda>t. fst t \<noteq> Exited) (pool[i := (p, b)])"
  by (rule list_all_update) simp_all

lemma drained_JobDispatcherThread:
  assumes "drained s" and "JobDispatcherThread i s = Some s'"
  shows "drained s'"
proof -
  obtain p stop where ps: "thread_pool s ! i = (p, stop)" by (cases "thread_pool s ! i")
  show ?thesis
  proof (cases "job_list (obj s) = []")
    case True
    have "job_list (obj s') = []"
      using assms(2) ps True
      by (cases p)
        (auto simp: JobDispatcherThread_def dequeue_def
              split: option.splits prod.splits sum.splits if_splits dest: complete_job_list)
    then show ?thesis by (simp add: drained_def)
  next
    case False
    with assms(1) have ne: "list_all (\<lambda>t. fst t \<noteq> Exited) (thread_pool s)"
      by (simp add: drained_def)
    have "list_all (\<lambda>t. fst t \<noteq> Exited) (thread_pool s')"
      using assms(2) ps False ne
      by (cases p)
        (auto simp: JobDispatcherThread_def dequeue_None
              split: option.splits prod.splits sum.splits if_splits
              intro: not_Exited_update)
    then show ?thesis by (simp add: drained_def)
  qed
qed

lemma drained_Destructor:
  "list_all (\<lambda>t. fst t \<noteq> Exited)
     (map (\<lambda>(p, stop). (case p of Waiting \<Rightarrow> Woken | _ \<Rightarrow> p, True)) pool)
   = list_all (\<lambda>t. fst t \<noteq> Exited) pool"
  by (induction pool) (auto split: pc.splits)

lemma Cancel_job_list_empty: "job_list q = [] \<Longrightarrow> job_list (Cancel ts q) = []"
  by (simp add: Cancel_def)

lemma drained_fire:
  assumes "drained s" and "\<not> is_Add ev" and "fire ev s = Some s'"
  shows "drained s'"
proof -
  from assms(3) have a: "act ev s = Some s'" by (simp add: fire_def split: if_splits)
  show ?thesis
  proof (cases ev)
    case (CallCancel ts)
    with a assms(1) show ?thesis by (auto simp: drained_def Cancel_job_list_empty)
  next
    case CallDestructor
    with a assms(1) show ?thesis by (auto simp: drained_def drained_Destructor)
  next
    case (Wakeup i)
    with a assms(1) show ?thesis
      by (auto simp: drained_def split: if_splits prod.splits pc.splits intro: not_Exited_update)
  next
    case (WorkerStep i)
    with a assms(1) show ?thesis by (auto split: if_splits dest: drained_JobDispatcherThread)
  qed (use a assms(1,2) in \<open>auto simp: drained_def split: if_splits joiner.splits\<close>)
qed

lemma drained_run:
  "drained s \<Longrightarrow> list_all (\<lambda>ev. \<not> is_Add ev) evs \<Longrightarrow> run evs s = Some s' \<Longrightarrow> drained s'"
proof (induction evs arbitrary: s)
  case Nil
  then show ?case by simp
next
  case (Cons ev evs)
  from Cons.prems(3) obtain s1 where f: "fire ev s = Some s1" and r: "run evs s1 = Some s'"
    by (auto split: option.splits)
  from Cons.prems(2) have i: "\<not> is_Add ev" "list_all (\<lambda>ev. \<not> is_Add ev) evs" by simp_all
  from Cons.IH [OF drained_fire [OF Cons.prems(1) i(1) f] i(2) r] show ?case .
qed

text \<open>
  Step by step: a worker whose stop was requested takes the head entry when it finds the
  job list not empty, runs the job it holds, and exits only by a step that finds the job
  list empty.
\<close>

lemma stop_requested_worker_step:
  assumes "\<not> terminated s" and "i < length (thread_pool s)" and "thread_pool s ! i = (p, True)"
  shows "(\<forall>key job rest. p = AtTop \<and> job_list (obj s) = (key, job) # rest \<longrightarrow>
            (\<exists>s'. fire (WorkerStep i :: ('k, 'w, 'r) event) s = Some s'
                  \<and> thread_pool s' ! i = (Running key job, True)
                  \<and> job_list (obj s') = rest))
       \<and> (\<forall>key job rest. p = Woken \<and> job_list (obj s) = (key, job) # rest \<longrightarrow>
            fire (WorkerStep i :: ('k, 'w, 'r) event) s = Some (set_pc i AtTop s))
       \<and> (\<forall>key job. p = Running key job \<longrightarrow>
            (\<exists>s'. fire (WorkerStep i :: ('k, 'w, 'r) event) s = Some s'
                  \<and> world s' = snd (future_get job (world s))
                  \<and> started s' = started s @ [(key, job)]))
       \<and> (\<forall>s'. fire (WorkerStep i :: ('k, 'w, 'r) event) s = Some s'
                  \<and> fst (thread_pool s' ! i) = Exited \<longrightarrow>
            job_list (obj s) = [] \<and> (p = AtTop \<or> p = Woken))
       \<and> (\<forall>(evs :: ('k, 'w, 'r) event list) s'.
            drained s \<and> list_all (\<lambda>ev. \<not> is_Add ev) evs \<and> run evs s = Some s' \<longrightarrow>
            drained s')"
proof (intro conjI allI impI)
  fix evs :: "('k, 'w, 'r) event list" and s'
  assume "drained s \<and> list_all (\<lambda>ev. \<not> is_Add ev) evs \<and> run evs s = Some s'"
  then show "drained s'" using drained_run [of s evs s'] by blast
next
  fix key job rest
  assume a: "p = AtTop \<and> job_list (obj s) = (key, job) # rest"
  then obtain q where d: "dequeue (obj s) = Some (key, job, q)" and q: "job_list q = rest"
    by (auto simp: dequeue_def Let_def)
  show "\<exists>s'. fire (WorkerStep i :: ('k, 'w, 'r) event) s = Some s'
           \<and> thread_pool s' ! i = (Running key job, True) \<and> job_list (obj s') = rest"
    using assms a d q by (simp add: fire_def JobDispatcherThread_def)
next
  fix key job rest
  assume "p = Woken \<and> job_list (obj s) = (key, job) # rest"
  with assms show "fire (WorkerStep i :: ('k, 'w, 'r) event) s = Some (set_pc i AtTop s)"
    by (simp add: fire_def JobDispatcherThread_def)
next
  fix key job
  assume "p = Running key job"
  with assms show "\<exists>s'. fire (WorkerStep i :: ('k, 'w, 'r) event) s = Some s'
                  \<and> world s' = snd (future_get job (world s))
                  \<and> started s' = started s @ [(key, job)]"
    by (auto simp: fire_def JobDispatcherThread_def split: prod.splits sum.splits)
next
  fix s'
  assume f: "fire (WorkerStep i :: ('k, 'w, 'r) event) s = Some s' \<and> fst (thread_pool s' ! i) = Exited"
  with assms have j: "JobDispatcherThread i s = Some s'" by (simp add: fire_def)
  from j f assms show "job_list (obj s) = []"
    by (cases p)
      (auto simp: JobDispatcherThread_def dequeue_None [symmetric]
            split: option.splits if_splits prod.splits sum.splits)
  from j f assms show "p = AtTop \<or> p = Woken"
    by (cases p)
      (auto simp: JobDispatcherThread_def split: option.splits if_splits prod.splits sum.splits)
qed









































section \<open>Jobs that throw\<close>

lemma complete_effect:
  assumes "in_progress_job_count_map q key = Some c"
  shows "\<exists>q' notify. complete key q = Some (q', notify)
           \<and> job_list q' = job_list q
           \<and> pending_job_count_map q' = pending_job_count_map q
           \<and> in_progress_job_count_map q'
               = (in_progress_job_count_map q)(key := if c - 1 = 0 then None else Some (c - 1))"
  using assms by (cases "c - 1 = 0") (auto simp: complete_def Let_def erase_def)

text \<open>
  Claim C9, as amended. When the job a worker holds returns, the worker goes on to its
  accounting: it takes its key's count in \<open>in_progress_job_count_map\<close> down by one,
  erasing the entry at 0, and leaves the job list and \<open>pending_job_count_map\<close> as
  they are. When the job throws, \<^verbatim>\<open>job.get()\<close> rethrows in the worker, which has no
  handler: \<^verbatim>\<open>std::terminate\<close> ends the process, the accounting of that job is never
  done, and no other thread takes a further step. The same holds for the worker of the
  \<open>NoKey\<close> specialization.
\<close>

theorem throwing_job_terminates:
  assumes "\<not> terminated s" and "i < length (thread_pool s)"
    and "thread_pool s ! i = (Running key job, stop)"
    and "\<not> terminated_NoKey t" and "j < length (thread_pool_NoKey t)"
    and "thread_pool_NoKey t ! j = (Running_NoKey job_NoKey, stop_NoKey)"
  shows "(\<forall>e w. future_get job (world s) = (Inl e, w) \<longrightarrow>
            (\<exists>s'. fire (WorkerStep i :: ('k, 'w, 'r) event) s = Some s'
                  \<and> terminated s' \<and> obj s' = obj s \<and> thread_pool s' = thread_pool s
                  \<and> (\<forall>ev :: ('k, 'w, 'r) event. fire ev s' = None)))
       \<and> (\<forall>u w c. future_get job (world s) = (Inr u, w)
                  \<and> in_progress_job_count_map (obj s) key = Some c \<longrightarrow>
            (\<exists>s' s''. fire (WorkerStep i :: ('k, 'w, 'r) event) s = Some s'
                  \<and> \<not> terminated s' \<and> obj s' = obj s \<and> world s' = w
                  \<and> thread_pool s' ! i = (Finished key, stop)
                  \<and> fire (WorkerStep i :: ('k, 'w, 'r) event) s' = Some s''
                  \<and> thread_pool s'' ! i = (AtTop, stop)
                  \<and> job_list (obj s'') = job_list (obj s)
                  \<and> pending_job_count_map (obj s'') = pending_job_count_map (obj s)
                  \<and> in_progress_job_count_map (obj s'')
                      = (in_progress_job_count_map (obj s))
                          (key := if c - 1 = 0 then None else Some (c - 1))))
       \<and> (\<forall>e w. future_get job_NoKey (world_NoKey t) = (Inl e, w) \<longrightarrow>
            (\<exists>t'. fire_NoKey (WorkerStep_NoKey j :: ('w, 'r) event_NoKey) t = Some t'
                  \<and> terminated_NoKey t' \<and> obj_NoKey t' = obj_NoKey t
                  \<and> (\<forall>ev :: ('w, 'r) event_NoKey. fire_NoKey ev t' = None)))
       \<and> (\<forall>u w. future_get job_NoKey (world_NoKey t) = (Inr u, w) \<longrightarrow>
            fire_NoKey (WorkerStep_NoKey j :: ('w, 'r) event_NoKey) t
              = Some (set_pc_NoKey j AtTop_NoKey (t\<lparr>world_NoKey := w\<rparr>)))"
proof (intro conjI allI impI)
  fix e w
  assume "future_get job_NoKey (world_NoKey t) = (Inl e, w)"
  with assms show "\<exists>t'. fire_NoKey (WorkerStep_NoKey j :: ('w, 'r) event_NoKey) t = Some t'
                  \<and> terminated_NoKey t' \<and> obj_NoKey t' = obj_NoKey t
                  \<and> (\<forall>ev :: ('w, 'r) event_NoKey. fire_NoKey ev t' = None)"
    by (simp add: fire_NoKey_def JobDispatcherThread_NoKey_def)
next
  fix u w
  assume "future_get job_NoKey (world_NoKey t) = (Inr u, w)"
  with assms show "fire_NoKey (WorkerStep_NoKey j :: ('w, 'r) event_NoKey) t
              = Some (set_pc_NoKey j AtTop_NoKey (t\<lparr>world_NoKey := w\<rparr>))"
    by (simp add: fire_NoKey_def JobDispatcherThread_NoKey_def)
next
  fix e w
  assume "future_get job (world s) = (Inl e, w)"
  with assms show "\<exists>s'. fire (WorkerStep i :: ('k, 'w, 'r) event) s = Some s'
                  \<and> terminated s' \<and> obj s' = obj s \<and> thread_pool s' = thread_pool s
                  \<and> (\<forall>ev :: ('k, 'w, 'r) event. fire ev s' = None)"
    by (simp add: fire_def JobDispatcherThread_def)
next
  fix u w c
  assume a: "future_get job (world s) = (Inr u, w)
               \<and> in_progress_job_count_map (obj s) key = Some c"
  let ?s' = "set_pc i (Finished key) (s\<lparr>world := w, started := started s @ [(key, job)]\<rparr>)"
  have 1: "fire (WorkerStep i :: ('k, 'w, 'r) event) s = Some ?s'"
    using assms(1-3) a by (simp add: fire_def JobDispatcherThread_def)
  have 2: "\<not> terminated ?s'" "obj ?s' = obj s" "world ?s' = w"
    "thread_pool ?s' ! i = (Finished key, stop)" "i < length (thread_pool ?s')"
    using assms by simp_all
  obtain q notify where c: "complete key (obj s) = Some (q, notify)"
    and q: "job_list q = job_list (obj s)" "pending_job_count_map q = pending_job_count_map (obj s)"
      "in_progress_job_count_map q
         = (in_progress_job_count_map (obj s))(key := if c - 1 = 0 then None else Some (c - 1))"
    using complete_effect [of "obj s" key c] a by blast
  let ?s'' = "set_pc i AtTop (?s'\<lparr>obj := q,
      joiners := (if notify then notify_all_join (joiners ?s') else joiners ?s')\<rparr>)"
  have 3: "fire (WorkerStep i :: ('k, 'w, 'r) event) ?s' = Some ?s''"
    using 2 c by (simp add: fire_def JobDispatcherThread_def)
  have 4: "thread_pool ?s'' ! i = (AtTop, stop)" "obj ?s'' = q"
    using assms by simp_all
  show "\<exists>s' s''. fire (WorkerStep i :: ('k, 'w, 'r) event) s = Some s'
                  \<and> \<not> terminated s' \<and> obj s' = obj s \<and> world s' = w
                  \<and> thread_pool s' ! i = (Finished key, stop)
                  \<and> fire (WorkerStep i :: ('k, 'w, 'r) event) s' = Some s''
                  \<and> thread_pool s'' ! i = (AtTop, stop)
                  \<and> job_list (obj s'') = job_list (obj s)
                  \<and> pending_job_count_map (obj s'') = pending_job_count_map (obj s)
                  \<and> in_progress_job_count_map (obj s'')
                      = (in_progress_job_count_map (obj s))
                          (key := if c - 1 = 0 then None else Some (c - 1))"
    using 1 2(1-4) 3 4 q by (intro exI [of _ ?s'] exI [of _ ?s'']) simp
qed


theorem throwing_job_terminates_witness:
  "(\<exists>s'. fire (WorkerStep 0 :: (string, nat list, unit) event)
            (the (run [CallAdd ''a'' (throwing 3), WorkerStep 0 :: (string, nat list, unit) event]
                   (AsyncJobQueue_ctor 1 []))) = Some s'
         \<and> terminated s'
         \<and> in_progress_job_count_map (obj s') ''a'' = Some 1)
   \<and> (\<exists>s' s''. fire (WorkerStep 0 :: (string, nat list, unit) event)
            (the (run [CallAdd ''a'' (log_marker 1), WorkerStep 0 :: (string, nat list, unit) event]
                   (AsyncJobQueue_ctor 1 []))) = Some s'
         \<and> \<not> terminated s' \<and> world s' = [1]
         \<and> fire (WorkerStep 0 :: (string, nat list, unit) event) s' = Some s''
         \<and> in_progress_job_count_map (obj s'') ''a'' = None)
   \<and> (\<exists>t'. fire_NoKey (WorkerStep_NoKey 0 :: (nat list, unit) event_NoKey)
            (the (run_NoKey [CallAdd_NoKey (throwing 3), WorkerStep_NoKey 0 :: (nat list, unit) event_NoKey]
                   (AsyncJobQueue_NoKey_ctor 1 []))) = Some t'
         \<and> terminated_NoKey t')"
proof -
  let ?s1 = "the (run [CallAdd ''a'' (throwing 3), WorkerStep 0 :: (string, nat list, unit) event]
                   (AsyncJobQueue_ctor 1 []))"
  let ?s2 = "the (run [CallAdd ''a'' (log_marker 1), WorkerStep 0 :: (string, nat list, unit) event]
                   (AsyncJobQueue_ctor 1 []))"
  let ?t = "the (run_NoKey [CallAdd_NoKey (throwing 3), WorkerStep_NoKey 0 :: (nat list, unit) event_NoKey]
                   (AsyncJobQueue_NoKey_ctor 1 []))"
  have s1: "\<not> terminated ?s1" "0 < length (thread_pool ?s1)"
    "thread_pool ?s1 ! 0 = (Running ''a'' (throwing 3), False)"
    "future_get (throwing 3) (world ?s1) = (Inl (Exception 3), [])"
    "in_progress_job_count_map (obj ?s1) ''a'' = Some 1"
    by (simp_all add: keyed_exec)
  have s2: "\<not> terminated ?s2" "0 < length (thread_pool ?s2)"
    "thread_pool ?s2 ! 0 = (Running ''a'' (log_marker 1), False)"
    "future_get (log_marker 1) (world ?s2) = (Inr (), [1])"
    "in_progress_job_count_map (obj ?s2) ''a'' = Some 1"
    by (simp_all add: keyed_exec)
  have t: "\<not> terminated_NoKey ?t" "0 < length (thread_pool_NoKey ?t)"
    "thread_pool_NoKey ?t ! 0 = (Running_NoKey (throwing 3), False)"
    "future_get (throwing 3) (world_NoKey ?t) = (Inl (Exception 3), [])"
    by (simp_all add: NoKey_exec)
  note a = throwing_job_terminates [where 'r = unit, OF s1(1-3) t(1-3)]
  note b = throwing_job_terminates [where 'r = unit, OF s2(1-3) t(1-3)]
  from a s1(4,5) have 1: "\<exists>s'. fire (WorkerStep 0 :: (string, nat list, unit) event) ?s1 = Some s'
         \<and> terminated s' \<and> in_progress_job_count_map (obj s') ''a'' = Some 1"
    by (metis (no_types, lifting))
  from b s2(4,5) have 2: "\<exists>s' s''. fire (WorkerStep 0 :: (string, nat list, unit) event) ?s2 = Some s'
         \<and> \<not> terminated s' \<and> world s' = [1]
         \<and> fire (WorkerStep 0 :: (string, nat list, unit) event) s' = Some s''
         \<and> in_progress_job_count_map (obj s'') ''a'' = None"
    by (fastforce simp: fun_upd_def)
  from a t(4) have 3: "\<exists>t'. fire_NoKey (WorkerStep_NoKey 0 :: (nat list, unit) event_NoKey) ?t = Some t'
         \<and> terminated_NoKey t'"
    by (metis (no_types, lifting))
  from 1 2 3 show ?thesis by blast
qed

text \<open>
  Two workers, a throwing job of \<open>"a"\<close> and a job of \<open>"b"\<close> behind it: after worker 0
  ran the first, the process is terminated with \<open>"a"\<close> still counted in progress and
  the job of \<open>"b"\<close> still queued, and worker 1 cannot take it.
\<close>

theorem throwing_job_counterexample:
  "run [CallAdd ''a'' (throwing 3), CallAdd ''b'' (log_marker 1), WorkerStep 0, WorkerStep 0
          :: (string, nat list, unit) event] (AsyncJobQueue_ctor 2 []) \<noteq> None
   \<and> terminated (the (run [CallAdd ''a'' (throwing 3), CallAdd ''b'' (log_marker 1), WorkerStep 0,
        WorkerStep 0 :: (string, nat list, unit) event] (AsyncJobQueue_ctor 2 [])))
   \<and> in_progress_job_count_map (obj (the (run [CallAdd ''a'' (throwing 3),
        CallAdd ''b'' (log_marker 1), WorkerStep 0, WorkerStep 0 :: (string, nat list, unit) event]
        (AsyncJobQueue_ctor 2 [])))) ''a'' = Some 1
   \<and> map fst (job_list (obj (the (run [CallAdd ''a'' (throwing 3),
        CallAdd ''b'' (log_marker 1), WorkerStep 0, WorkerStep 0 :: (string, nat list, unit) event]
        (AsyncJobQueue_ctor 2 []))))) = [''b'']
   \<and> fire (WorkerStep 1 :: (string, nat list, unit) event)
        (the (run [CallAdd ''a'' (throwing 3), CallAdd ''b'' (log_marker 1), WorkerStep 0,
           WorkerStep 0 :: (string, nat list, unit) event] (AsyncJobQueue_ctor 2 []))) = None
   \<and> terminated_NoKey (the (run_NoKey [CallAdd_NoKey (throwing 3), CallAdd_NoKey (log_marker 1),
        WorkerStep_NoKey 0, WorkerStep_NoKey 0 :: (nat list, unit) event_NoKey]
        (AsyncJobQueue_NoKey_ctor 2 [])))
   \<and> fire_NoKey (WorkerStep_NoKey 1 :: (nat list, unit) event_NoKey)
        (the (run_NoKey [CallAdd_NoKey (throwing 3), CallAdd_NoKey (log_marker 1),
           WorkerStep_NoKey 0, WorkerStep_NoKey 0 :: (nat list, unit) event_NoKey]
           (AsyncJobQueue_NoKey_ctor 2 []))) = None"
  by (simp add: keyed_exec NoKey_exec)

section \<open>Callbacks\<close>

lemma traced_job_log:
  assumes "func w = (Inr r, w_func)"
  shows "future_get (AddWithCallback_job (traced_callback callback) (traced_func func)) (w, log)
           = (fst (callback r w_func), (snd (callback r w_func), log @ [Func_called, Callback_called r]))"
  using assms
  by (simp add: future_get_def AddWithCallback_job_def traced_callback_def traced_func_def
      split: prod.splits)

lemma holding_pos:
  assumes "i < length pool" and "pc_key (fst (pool ! i)) = Some k"
  shows "0 < holding k pool"
proof -
  from assms have "pool ! i \<in> set (filter (\<lambda>t. pc_key (fst t) = Some k) pool)" by simp
  then show ?thesis unfolding holding_def by (metis length_pos_if_in_set)
qed

text \<open>
  Claim C8. \<^verbatim>\<open>AddWithCallback(key, callback, func)\<close> stores, at the tail of the job
  list, the job that calls \<open>func\<close> and then \<open>callback\<close> with what \<open>func\<close> returned; a
  worker that finds this entry at the head takes it without running anything. In every
  state the pool reaches, whichever worker holds this job and however it came to hold
  it: when \<open>func\<close> returns \<open>r\<close>, the one step that runs the job calls \<open>func\<close> once
  and then \<open>callback\<close> once, with \<open>r\<close>, and leaves the accounting as it is, the job
  still counted in \<open>in_progress_job_count_map\<close>; only the worker's next step takes
  the count down by one.
\<close>

theorem callback_receives_result:
  assumes "run (evs :: ('k, 'w \<times> 'r call list, 'r) event list)
             (AsyncJobQueue_ctor number_of_threads w0) = Some s"
    and "\<not> terminated s" and "i < length (thread_pool s)"
    and "thread_pool s ! i
           = (Running key (AddWithCallback_job (traced_callback callback) (traced_func func)), stop)"
    and "world s = (w, log)" and "func w = (Inr r, w_func)"
  shows "snd (snd (future_get (AddWithCallback_job (traced_callback callback) (traced_func func))
                     (w, log)))
           = log @ [Func_called, Callback_called r]
       \<and> (\<forall>q q'. AddWithCallback key (traced_callback callback) (traced_func func) q = Inr q' \<longrightarrow>
            job_list q'
              = job_list q
                @ [(key, AddWithCallback_job (traced_callback callback) (traced_func func))])
       \<and> (\<forall>s0 j stop0 rest.
            \<not> terminated s0 \<and> j < length (thread_pool s0) \<and> thread_pool s0 ! j = (AtTop, stop0)
            \<and> job_list (obj s0)
                = (key, AddWithCallback_job (traced_callback callback) (traced_func func)) # rest
            \<longrightarrow>
            (\<exists>s0'. fire (WorkerStep j :: ('k, 'w \<times> 'r call list, 'r) event) s0 = Some s0'
                \<and> thread_pool s0' ! j
                    = (Running key
                         (AddWithCallback_job (traced_callback callback) (traced_func func)), stop0)
                \<and> world s0' = world s0))
       \<and> (\<forall>w_cb. callback r w_func = (Inr (), w_cb) \<longrightarrow>
            (\<exists>s3 s4.
                fire (WorkerStep i :: ('k, 'w \<times> 'r call list, 'r) event) s = Some s3
              \<and> thread_pool s3 ! i = (Finished key, stop)
              \<and> world s3 = (w_cb, log @ [Func_called, Callback_called r])
              \<and> obj s3 = obj s
              \<and> contains (in_progress_job_count_map (obj s3)) key
              \<and> unat (subscript (in_progress_job_count_map (obj s3)) key)
                  = holding key (thread_pool s3)
              \<and> 0 < holding key (thread_pool s3)
              \<and> fire (WorkerStep i :: ('k, 'w \<times> 'r call list, 'r) event) s3 = Some s4
              \<and> thread_pool s4 ! i = (AtTop, stop)
              \<and> world s4 = world s3
              \<and> unat (subscript (in_progress_job_count_map (obj s4)) key)
                  = holding key (thread_pool s3) - 1))"
proof (intro conjI allI impI)
  let ?job = "AddWithCallback_job (traced_callback callback) (traced_func func)"
  show "snd (snd (future_get ?job (w, log))) = log @ [Func_called, Callback_called r]"
    using traced_job_log [of func w r w_func callback log] assms(6) by simp
next
  fix q q'
  assume "AddWithCallback key (traced_callback callback) (traced_func func) q = Inr q'"
  then show "job_list q'
      = job_list q @ [(key, AddWithCallback_job (traced_callback callback) (traced_func func))]"
    by (simp add: AddWithCallback_def emplace_back_job_list)
next
  fix s0 :: "('k, 'w \<times> 'r call list) system" and j stop0 rest
  let ?job = "AddWithCallback_job (traced_callback callback) (traced_func func)"
  assume a: "\<not> terminated s0 \<and> j < length (thread_pool s0) \<and> thread_pool s0 ! j = (AtTop, stop0)
            \<and> job_list (obj s0) = (key, ?job) # rest"
  then obtain q where d: "dequeue (obj s0) = Some (key, ?job, q)"
    by (auto simp: dequeue_def Let_def)
  show "\<exists>s0'. fire (WorkerStep j :: ('k, 'w \<times> 'r call list, 'r) event) s0 = Some s0'
                \<and> thread_pool s0' ! j = (Running key ?job, stop0) \<and> world s0' = world s0"
    using a d by (simp add: fire_def JobDispatcherThread_def)
next
  fix w_cb
  assume cb: "callback r w_func = (Inr (), w_cb)"
  let ?job = "AddWithCallback_job (traced_callback callback) (traced_func func)"
  have g: "future_get ?job (w, log) = (Inr (), (w_cb, log @ [Func_called, Callback_called r]))"
    using traced_job_log [of func w r w_func callback log] assms(6) cb by simp
  define s3 where "s3 = set_pc i (Finished key)
      (s\<lparr>world := (w_cb, log @ [Func_called, Callback_called r]),
         started := started s @ [(key, ?job)]\<rparr>)"
  have f3: "fire (WorkerStep i :: ('k, 'w \<times> 'r call list, 'r) event) s = Some s3"
    using assms(2-5) g by (simp add: fire_def JobDispatcherThread_def s3_def)
  have p3: "thread_pool s3 ! i = (Finished key, stop)"
    "world s3 = (w_cb, log @ [Func_called, Callback_called r])"
    "obj s3 = obj s" "i < length (thread_pool s3)" "\<not> terminated s3"
    using assms(2-4) by (simp_all add: s3_def)
  have acc3: "accounting s3"
    using accounting_fire [OF accounting_run [OF accounting_ctor assms(1)] f3] .
  have h3: "0 < holding key (thread_pool s3)"
    using holding_pos [OF p3(4), of key] p3(1) by simp
  have b3: "holding key (thread_pool s3) < 2 ^ 64"
    using acc3 holding_le [of key "thread_pool s3"] by (simp add: accounting_def)
  have i3: "in_progress_job_count_map (obj s3) key = sparse (holding key (thread_pool s3))"
    using acc3 by (simp add: accounting_def)
  note sf3 = sparse_facts [of "in_progress_job_count_map (obj s3)" key, OF i3 b3]
  have fk: "fst (thread_pool s3 ! i) = Finished key" using p3(1) by simp
  from accounting_complete [OF acc3 p3(4) fk, of "joiners s3"]
  obtain q4 notify where c4: "complete key (obj s3) = Some (q4, notify)" by blast
  define s4 where "s4 = set_pc i AtTop
      (s3\<lparr>obj := q4, joiners := (if notify then notify_all_join (joiners s3) else joiners s3)\<rparr>)"
  have f4: "fire (WorkerStep i :: ('k, 'w \<times> 'r call list, 'r) event) s3 = Some s4"
    using p3 c4 by (simp add: fire_def JobDispatcherThread_def s4_def)
  have p4: "thread_pool s4 ! i = (AtTop, stop)" "world s4 = world s3"
    "thread_pool s4 = (thread_pool s3)[i := (AtTop, stop)]"
    using p3 by (simp_all add: s4_def)
  have acc4: "accounting s4" using accounting_fire [OF acc3 f4] .
  have h4: "holding key (thread_pool s4) + 1 = holding key (thread_pool s3)"
    using holding_update [OF p3(4), of key AtTop stop] p3(1) p4(3) by simp
  have b4: "holding key (thread_pool s4) < 2 ^ 64" using h4 b3 by simp
  have i4: "in_progress_job_count_map (obj s4) key = sparse (holding key (thread_pool s4))"
    using acc4 by (simp add: accounting_def)
  note sf4 = sparse_facts [of "in_progress_job_count_map (obj s4)" key, OF i4 b4]
  have u4: "unat (subscript (in_progress_job_count_map (obj s4)) key)
              = holding key (thread_pool s3) - 1"
    using sf4(2) h4 by simp
  show "\<exists>s3 s4.
                fire (WorkerStep i :: ('k, 'w \<times> 'r call list, 'r) event) s = Some s3
              \<and> thread_pool s3 ! i = (Finished key, stop)
              \<and> world s3 = (w_cb, log @ [Func_called, Callback_called r])
              \<and> obj s3 = obj s
              \<and> contains (in_progress_job_count_map (obj s3)) key
              \<and> unat (subscript (in_progress_job_count_map (obj s3)) key)
                  = holding key (thread_pool s3)
              \<and> 0 < holding key (thread_pool s3)
              \<and> fire (WorkerStep i :: ('k, 'w \<times> 'r call list, 'r) event) s3 = Some s4
              \<and> thread_pool s4 ! i = (AtTop, stop)
              \<and> world s4 = world s3
              \<and> unat (subscript (in_progress_job_count_map (obj s4)) key)
                  = holding key (thread_pool s3) - 1"
    using f3 p3(1-3) sf3(1,2) h3 f4 p4(1,2) u4 by (intro exI [of _ s3] exI [of _ s4]) simp
qed


theorem callback_receives_result_witness:
  "\<exists>s s3 s4.
      run [WorkerStep 0, CallAdd ''x'' (\<lambda>(w, log). (Inr (), (w + 10, log))),
           CallAddWithCallback ''k'' (traced_callback (\<lambda>r w. (Inr (), w + r)))
             (traced_func (\<lambda>w. (Inr (w + 31), w + 1))),
           Wakeup 0, WorkerStep 0, WorkerStep 0, WorkerStep 0, WorkerStep 0, WorkerStep 0
           :: (string, nat \<times> nat call list, nat) event]
        (AsyncJobQueue_ctor 1 (0, [])) = Some s
    \<and> thread_pool s
        = [(Running ''k'' (AddWithCallback_job (traced_callback (\<lambda>r w. (Inr (), w + r)))
                             (traced_func (\<lambda>w. (Inr (w + 31), w + 1)))), False)]
    \<and> world s = (10, [])
    \<and> fire (WorkerStep 0 :: (string, nat \<times> nat call list, nat) event) s = Some s3
    \<and> world s3 = (52, [Func_called, Callback_called 41])
    \<and> contains (in_progress_job_count_map (obj s3)) ''k''
    \<and> holding ''k'' (thread_pool s3) = 1
    \<and> fire (WorkerStep 0 :: (string, nat \<times> nat call list, nat) event) s3 = Some s4
    \<and> world s4 = (52, [Func_called, Callback_called 41])
    \<and> unat (subscript (in_progress_job_count_map (obj s4)) ''k'') = 0"
proof -
  let ?func = "\<lambda>w :: nat. (Inr (w + 31) :: exn + nat, w + 1)"
  let ?callback = "\<lambda>(r :: nat) (w :: nat). (Inr () :: exn + unit, w + r)"
  let ?evs = "[WorkerStep 0, CallAdd ''x'' (\<lambda>(w, log). (Inr (), (w + 10, log))),
           CallAddWithCallback ''k'' (traced_callback ?callback) (traced_func ?func),
           Wakeup 0, WorkerStep 0, WorkerStep 0, WorkerStep 0, WorkerStep 0, WorkerStep 0
           :: (string, nat \<times> nat call list, nat) event]"
  obtain s where r: "run ?evs (AsyncJobQueue_ctor 1 (0, [])) = Some s"
    by (simp add: keyed_exec traced_func_def traced_callback_def)
  have a: "\<not> terminated s" "0 < length (thread_pool s)"
    "thread_pool s ! 0
       = (Running ''k'' (AddWithCallback_job (traced_callback ?callback) (traced_func ?func)), False)"
    "world s = (10, [])" "?func 10 = (Inr 41, 11)"
    and pool: "thread_pool s
       = [(Running ''k'' (AddWithCallback_job (traced_callback ?callback) (traced_func ?func)), False)]"
    using r by (auto simp: keyed_exec traced_func_def traced_callback_def)
  have c: "?callback 41 11 = (Inr (), 52)" by simp
  note t = callback_receives_result [where callback = ?callback and func = ?func and r = 41
      and w_func = 11 and w = 10 and log = "[]" and key = "''k''" and stop = False and i = 0
      and s = s and evs = ?evs and number_of_threads = 1 and ?w0.0 = "(0, [])"]
  from t [OF r a] c obtain s3 s4
    where f3: "fire (WorkerStep 0 :: (string, nat \<times> nat call list, nat) event) s = Some s3"
      and p3: "thread_pool s3 ! 0 = (Finished ''k'', False)"
        "world s3 = (52, [Func_called, Callback_called 41])"
        "contains (in_progress_job_count_map (obj s3)) ''k''"
      and f4: "fire (WorkerStep 0 :: (string, nat \<times> nat call list, nat) event) s3 = Some s4"
      and p4: "world s4 = world s3"
        "unat (subscript (in_progress_job_count_map (obj s4)) ''k'')
           = holding ''k'' (thread_pool s3) - 1"
    by auto
  have "length (thread_pool s3) = 1"
    using f3 a(1) pool
    by (auto simp: fire_def JobDispatcherThread_def set_pc_def split: prod.splits sum.splits)
  with p3(1) have "thread_pool s3 = [(Finished ''k'', False)]"
    by (cases "thread_pool s3") auto
  then have h: "holding ''k'' (thread_pool s3) = 1" by (simp add: holding_def)
  from r pool a(4) f3 p3 f4 p4 h show ?thesis
    by (intro exI [of _ s] exI [of _ s3] exI [of _ s4]) simp
qed

section \<open>Join of the \<open>NoKey\<close> specialization\<close>

text \<open>
  Claim C3 says that \<^verbatim>\<open>Join()\<close> of \<^verbatim>\<open>AsyncJobQueue<NoKey>\<close> returns only when the
  queue is empty and no job is in progress. Its predicate is
  \<^verbatim>\<open>number_of_busy_threads == 0\<close> and does not look at the queue. One worker: it finds
  the queue empty, takes the counter to 0 and waits; \<^verbatim>\<open>Add(f)\<close> queues a job and
  notifies the worker, which needs the mutex to go on; \<^verbatim>\<open>Join()\<close> gets the mutex
  first, sees the counter at 0 and returns, with the job still queued and not run.
\<close>

theorem Join_NoKey_returns_with_job_queued:
  "run_NoKey [WorkerStep_NoKey 0, CallAdd_NoKey (log_marker 1), Wakeup_NoKey 0, CallJoin_NoKey
              :: (nat list, unit) event_NoKey] (AsyncJobQueue_NoKey_ctor 1 []) \<noteq> None
   \<and> joiners_NoKey (the (run_NoKey [WorkerStep_NoKey 0, CallAdd_NoKey (log_marker 1),
        Wakeup_NoKey 0, CallJoin_NoKey :: (nat list, unit) event_NoKey]
        (AsyncJobQueue_NoKey_ctor 1 []))) = [Returned_NoKey]
   \<and> job_queue (obj_NoKey (the (run_NoKey [WorkerStep_NoKey 0, CallAdd_NoKey (log_marker 1),
        Wakeup_NoKey 0, CallJoin_NoKey :: (nat list, unit) event_NoKey]
        (AsyncJobQueue_NoKey_ctor 1 [])))) = [log_marker 1]
   \<and> number_of_busy_threads (obj_NoKey (the (run_NoKey [WorkerStep_NoKey 0,
        CallAdd_NoKey (log_marker 1), Wakeup_NoKey 0, CallJoin_NoKey :: (nat list, unit) event_NoKey]
        (AsyncJobQueue_NoKey_ctor 1 [])))) = 0
   \<and> world_NoKey (the (run_NoKey [WorkerStep_NoKey 0, CallAdd_NoKey (log_marker 1),
        Wakeup_NoKey 0, CallJoin_NoKey :: (nat list, unit) event_NoKey]
        (AsyncJobQueue_NoKey_ctor 1 []))) = []"
  by (simp add: fire_NoKey_def JobDispatcherThread_NoKey_def push_def list_max_size_def
      set_pc_NoKey_def AsyncJobQueue_NoKey_ctor_def notify_all_join_NoKey_def
      notify_all_job_NoKey_def Join_NoKey_predicate_def Add_job_def)

text \<open>
  The other half of the claim holds: \<open>number_of_busy_threads\<close> counts the workers at the
  head of the loop or holding a job, so when \<^verbatim>\<open>Join()\<close> returns no job is in progress.
\<close>

lemma busy_update:
  "i < length pool \<Longrightarrow>
     busy (pool[i := (p, b)])
       + (case fst (pool ! i) of AtTop_NoKey \<Rightarrow> 1 | Running_NoKey job \<Rightarrow> 1 | _ \<Rightarrow> 0)
     = busy pool + (case p of AtTop_NoKey \<Rightarrow> 1 | Running_NoKey job \<Rightarrow> 1 | _ \<Rightarrow> 0)"
  unfolding busy_def
  using length_filter_update [of i pool
      "\<lambda>t. case fst t of AtTop_NoKey \<Rightarrow> True | Running_NoKey job \<Rightarrow> True | _ \<Rightarrow> False" "(p, b)"]
  by (auto split: pc_NoKey.splits)

lemma busy_counted_JobDispatcherThread:
  assumes "busy_counted s" and "i < length (thread_pool_NoKey s)"
    and "JobDispatcherThread_NoKey i s = Some s'"
  shows "busy_counted s'"
proof -
  obtain p stop where ps: "thread_pool_NoKey s ! i = (p, stop)"
    by (cases "thread_pool_NoKey s ! i")
  note u = busy_update [OF assms(2), unfolded ps, simplified]
  show ?thesis
  proof (cases p)
    case AtTop_NoKey
    show ?thesis
    proof (cases "job_queue (obj_NoKey s)")
      case Nil
      from u [of Exited_NoKey stop] u [of Waiting_NoKey stop] AtTop_NoKey
      have "busy (thread_pool_NoKey s) = Suc (busy ((thread_pool_NoKey s)[i := (Exited_NoKey, stop)]))"
        "busy (thread_pool_NoKey s) = Suc (busy ((thread_pool_NoKey s)[i := (Waiting_NoKey, stop)]))"
        by simp_all
      with assms(1,3) ps AtTop_NoKey Nil show ?thesis
        by (auto simp: JobDispatcherThread_NoKey_def busy_counted_def set_pc_NoKey_def Let_def)
    next
      case (Cons job rest)
      from u [of "Running_NoKey job" stop] AtTop_NoKey
      have "busy ((thread_pool_NoKey s)[i := (Running_NoKey job, stop)]) = busy (thread_pool_NoKey s)"
        by simp
      with assms(1,3) ps AtTop_NoKey Cons show ?thesis
        by (auto simp: JobDispatcherThread_NoKey_def busy_counted_def set_pc_NoKey_def)
    qed
  next
    case Waiting_NoKey
    with assms(3) ps show ?thesis by (simp add: JobDispatcherThread_NoKey_def)
  next
    case Woken_NoKey
    from u [of Exited_NoKey stop] u [of Waiting_NoKey stop] u [of AtTop_NoKey stop] Woken_NoKey
    have "busy ((thread_pool_NoKey s)[i := (Exited_NoKey, stop)]) = busy (thread_pool_NoKey s)"
      "busy ((thread_pool_NoKey s)[i := (Waiting_NoKey, stop)]) = busy (thread_pool_NoKey s)"
      "busy ((thread_pool_NoKey s)[i := (AtTop_NoKey, stop)]) = Suc (busy (thread_pool_NoKey s))"
      by simp_all
    with assms(1,3) ps Woken_NoKey show ?thesis
      by (auto simp: JobDispatcherThread_NoKey_def busy_counted_def set_pc_NoKey_def
          split: if_splits)
  next
    case (Running_NoKey job)
    from u [of AtTop_NoKey stop] Running_NoKey
    have "busy ((thread_pool_NoKey s)[i := (AtTop_NoKey, stop)]) = busy (thread_pool_NoKey s)"
      by simp
    with assms(1,3) ps Running_NoKey show ?thesis
      by (auto simp: JobDispatcherThread_NoKey_def busy_counted_def set_pc_NoKey_def
          split: prod.splits sum.splits)
  next
    case Exited_NoKey
    with assms(3) ps show ?thesis by (simp add: JobDispatcherThread_NoKey_def)
  qed
qed

lemma busy_Destructor:
  "busy (map (\<lambda>(p, stop). (case p of Waiting_NoKey \<Rightarrow> Woken_NoKey | _ \<Rightarrow> p, True)) pool)
     = busy pool"
  by (induction pool) (auto simp: busy_def split: pc_NoKey.splits)

lemma busy_notify_all_job: "busy (notify_all_job_NoKey pool) = busy pool"
  by (induction pool) (auto simp: busy_def notify_all_job_NoKey_def split: pc_NoKey.splits)

lemma length_notify_all_job: "length (notify_all_job_NoKey pool) = length pool"
  by (simp add: notify_all_job_NoKey_def)

lemma busy_counted_fire:
  assumes "busy_counted s" and "fire_NoKey ev s = Some s'"
  shows "busy_counted s'"
proof -
  from assms(2) have a: "act_NoKey ev s = Some s'" by (simp add: fire_NoKey_def split: if_splits)
  show ?thesis
  proof (cases ev)
    case (Wakeup_NoKey i)
    show ?thesis
    proof (cases "i < length (thread_pool_NoKey s) \<and> fst (thread_pool_NoKey s ! i) = Waiting_NoKey")
      case True
      then have "busy ((thread_pool_NoKey s)[i := (Woken_NoKey, snd (thread_pool_NoKey s ! i))])
                   = busy (thread_pool_NoKey s)"
        using busy_update [of i "thread_pool_NoKey s" Woken_NoKey "snd (thread_pool_NoKey s ! i)"]
        by simp
      with a Wakeup_NoKey assms(1) True show ?thesis
        by (auto simp: busy_counted_def set_pc_NoKey_def split: prod.splits pc_NoKey.splits)
    next
      case False
      with a Wakeup_NoKey show ?thesis by (auto split: if_splits prod.splits pc_NoKey.splits)
    qed
  next
    case (WorkerStep_NoKey i)
    with a assms(1) show ?thesis
      by (auto split: if_splits dest: busy_counted_JobDispatcherThread)
  next
    case CallDestructor_NoKey
    with a assms(1) show ?thesis by (auto simp: busy_counted_def busy_Destructor)
  next
    case CallJoin_NoKey
    with a assms(1) show ?thesis
      by (auto simp: busy_counted_def busy_notify_all_job length_notify_all_job)
  qed (use a assms(1) in \<open>auto simp: busy_counted_def push_def Cancel_NoKey_def
          split: if_splits sum.splits joiner_NoKey.splits\<close>)
qed

lemma busy_counted_run:
  "busy_counted s \<Longrightarrow> run_NoKey evs s = Some s' \<Longrightarrow> busy_counted s'"
  by (induction evs arbitrary: s) (auto split: option.splits dest: busy_counted_fire)

lemma busy_counted_ctor: "busy_counted (AsyncJobQueue_NoKey_ctor n w)"
proof -
  have "unat n < 2 ^ 64" using unsigned_less [of n, where 'a = nat] by simp
  then show ?thesis
    by (simp add: busy_counted_def AsyncJobQueue_NoKey_ctor_def busy_def)
qed

lemma Join_NoKey_no_job_in_progress:
  assumes "run_NoKey evs (AsyncJobQueue_NoKey_ctor n w) = Some s"
    and "Join_NoKey_predicate (obj_NoKey s)"
  shows "busy (thread_pool_NoKey s) = 0"
proof -
  have b: "busy_counted s" using busy_counted_run [OF busy_counted_ctor assms(1)] .
  have "busy (thread_pool_NoKey s) \<le> length (thread_pool_NoKey s)" by (simp add: busy_def)
  with b have "busy (thread_pool_NoKey s) < 2 ^ 64" by (simp add: busy_counted_def)
  from size_t_of_nat_eq_0 [OF this] b assms(2) show ?thesis
    by (simp add: busy_counted_def Join_NoKey_predicate_def)
qed

section \<open>Cancel and blocked callers of Join\<close>

lemma asleep_fire:
  assumes "asleep s" and "is_internal ev" and "fire ev s = Some s'"
  shows "asleep s' \<and> joiners s' = joiners s \<and> obj s' = obj s"
proof -
  from assms(3) have a: "act ev s = Some s'" by (simp add: fire_def split: if_splits)
  have pool: "(fst (thread_pool s ! i) = Waiting \<or> fst (thread_pool s ! i) = Woken)
                \<and> snd (thread_pool s ! i) = False" if "i < length (thread_pool s)" for i
    using assms(1) that by (simp add: asleep_def list_all_length)
  have js: "joiners s ! j \<noteq> Notified ts" if "j < length (joiners s)" for j ts
    using assms(1) that by (auto simp: asleep_def list_all_length split: joiner.splits)
  have upd: "list_all (\<lambda>t. (fst t = Waiting \<or> fst t = Woken) \<and> snd t = False)
               ((thread_pool s)[i := (p, snd (thread_pool s ! i))])"
    if "i < length (thread_pool s)" "p = Waiting \<or> p = Woken" for i p
    using assms(1) pool [OF that(1)] that(2) by (intro list_all_update) (auto simp: asleep_def)
  show ?thesis
  proof (cases ev)
    case (Wakeup i)
    with a assms(1) upd [of i Woken] show ?thesis
      by (auto simp: asleep_def split: if_splits prod.splits pc.splits)
  next
    case (WorkerStep i)
    with a have i: "i < length (thread_pool s)" and j: "JobDispatcherThread i s = Some s'"
      by (auto split: if_splits)
    obtain p stop where ps: "thread_pool s ! i = (p, stop)" by (cases "thread_pool s ! i")
    with pool [OF i] have p: "p = Waiting \<or> p = Woken" and st: "stop = False" by simp_all
    from j ps p st assms(1) have "s' = set_pc i Waiting s"
      by (auto simp: JobDispatcherThread_def asleep_def)
    with assms(1) upd [of i Waiting] i show ?thesis by (simp add: asleep_def)
  next
    case (JoinRecheck j)
    with a js [of j] show ?thesis by (auto split: if_splits joiner.splits)
  qed (use assms(2) in simp_all)
qed

lemma asleep_run:
  "asleep s \<Longrightarrow> list_all is_internal evs \<Longrightarrow> run evs s = Some s' \<Longrightarrow>
     asleep s' \<and> joiners s' = joiners s \<and> obj s' = obj s"
proof (induction evs arbitrary: s)
  case Nil
  then show ?case by simp
next
  case (Cons ev evs)
  from Cons.prems(3) obtain s1 where f: "fire ev s = Some s1" and r: "run evs s1 = Some s'"
    by (auto split: option.splits)
  from Cons.prems(2) have i: "is_internal ev" "list_all is_internal evs" by simp_all
  from asleep_fire [OF Cons.prems(1) i(1) f] Cons.IH [OF _ i(2) r] show ?case by simp
qed

text \<open>
  Claim C4 says that a blocked \<^verbatim>\<open>Join\<close> whose predicate has become true is woken.
  \<^verbatim>\<open>Cancel\<close> notifies nobody. One worker, waiting: \<^verbatim>\<open>Add("b", f)\<close> queues a job and
  notifies the worker; before the worker has the mutex, \<^verbatim>\<open>Join("b")\<close> blocks and
  \<^verbatim>\<open>Cancel("b")\<close> empties the list; the worker then finds its wait predicate false and
  waits again without a notification. The caller of \<^verbatim>\<open>Join("b")\<close> is blocked, its
  predicate is true, and by \<open>asleep_run\<close> no step of a worker or of a notified caller
  changes that.
\<close>

theorem Cancel_leaves_Join_blocked:
  "run [WorkerStep 0, CallAdd ''b'' (log_marker 1), Wakeup 0, CallJoin [''b''], CallCancel [''b''],
        WorkerStep 0 :: (string, nat list, unit) event] (AsyncJobQueue_ctor 1 []) \<noteq> None
   \<and> joiners (the (run [WorkerStep 0, CallAdd ''b'' (log_marker 1), Wakeup 0, CallJoin [''b''],
        CallCancel [''b''], WorkerStep 0 :: (string, nat list, unit) event]
        (AsyncJobQueue_ctor 1 []))) = [Blocked [''b'']]
   \<and> Join_predicate [''b''] (obj (the (run [WorkerStep 0, CallAdd ''b'' (log_marker 1), Wakeup 0,
        CallJoin [''b''], CallCancel [''b''], WorkerStep 0 :: (string, nat list, unit) event]
        (AsyncJobQueue_ctor 1 [])))) 
   \<and> thread_pool (the (run [WorkerStep 0, CallAdd ''b'' (log_marker 1), Wakeup 0, CallJoin [''b''],
        CallCancel [''b''], WorkerStep 0 :: (string, nat list, unit) event]
        (AsyncJobQueue_ctor 1 []))) = [(Waiting, False)]
   \<and> fire (WorkerStep 0 :: (string, nat list, unit) event)
        (the (run [WorkerStep 0, CallAdd ''b'' (log_marker 1), Wakeup 0, CallJoin [''b''],
           CallCancel [''b''], WorkerStep 0 :: (string, nat list, unit) event]
           (AsyncJobQueue_ctor 1 []))) = None
   \<and> fire (JoinRecheck 0 :: (string, nat list, unit) event)
        (the (run [WorkerStep 0, CallAdd ''b'' (log_marker 1), Wakeup 0, CallJoin [''b''],
           CallCancel [''b''], WorkerStep 0 :: (string, nat list, unit) event]
           (AsyncJobQueue_ctor 1 []))) = None
   \<and> asleep (the (run [WorkerStep 0, CallAdd ''b'' (log_marker 1), Wakeup 0, CallJoin [''b''],
        CallCancel [''b''], WorkerStep 0 :: (string, nat list, unit) event]
        (AsyncJobQueue_ctor 1 [])))"
  by (simp add: keyed_exec asleep_def)

end
